theory Spec2Isabelle
  imports Complex_Main "HOL-Library.Sublist" "HOL-Library.List_Lexorder" "HOL-Library.Char_ord"
    "HOL-Library.Multiset"
begin

section \<open>The enhanced search engine of \<^verbatim>\<open>src/enhanced-search.ts\<close>\<close>

text \<open>
  A shallow embedding of the class \<^verbatim>\<open>EnhancedSearchEngine\<close>.

  \<^item> JavaScript numbers used as scores are modelled as exact rationals: rounding, NaN and
    the infinities of IEEE doubles are outside the model.
  \<^item> A JavaScript string is a list of characters; \<^verbatim>\<open>localeCompare\<close> is taken to be the
    lexicographic comparison of those lists, and white space to be the six ASCII white
    space characters.
  \<^item> \<^verbatim>\<open>Array.prototype.sort\<close> is a stable sort. Every comparator of the engine compares
    a key of its two arguments, and for such a comparator the stably sorted list is unique,
    so the insertion sort \<open>js_sort\<close> returns it.
  \<^item> A thrown exception (a rejected promise) is the left summand of \<open>error + 'a\<close>.
  \<^item> A \<^verbatim>\<open>Map\<close> whose iteration order is observed is an association list in insertion
    order; the cache, which is only looked up by key, is a partial function.
  \<^item> The collaborators of the engine (embedding provider, vector index, vault, rerank
    provider, text generation provider) and the regular expression engine are the fields
    of the record \<open>env\<close>; the readings of the clock are the fields of \<open>clock\<close>.
  \<^item> The ISO strings written by \<^verbatim>\<open>toISOString\<close> and read back by \<^verbatim>\<open>new Date\<close> are
    kept as the millisecond counts they encode.
  \<^item> \<^verbatim>\<open>searchType\<close> and \<^verbatim>\<open>sortBy\<close> have the four values of their types each; the
    \<^verbatim>\<open>default\<close> branch of the \<^verbatim>\<open>switch\<close> in \<^verbatim>\<open>search\<close>, which also runs the hybrid
    strategy, has no other value to take.
  \<^item> Saved searches, and writing the history back to the plugin settings, are not
    modelled.
\<close>

subsection \<open>Data model\<close>

datatype error = Error string

datatype result_type = File | Node | External

datatype search_type = Semantic | Keyword | Hybrid | AiEnhanced

datatype sort_by = Relevance | Date | Title | Size

datatype sort_order = Asc | Desc

record TFile =
  path :: string
  basename :: string
  extension :: string
  ctime :: int
  mtime :: int

record metadata =
  md_type :: result_type
  md_source :: string
  md_path :: "string option"
  md_tags :: "string list option"
  md_created :: "int option"
  md_modified :: "int option"
  md_wordCount :: "nat option"
  md_highlights :: "string list option"

record SearchResult =
  id_r :: string
  title :: string
  content :: string
  file_r :: "TFile option"
  score :: rat
  rerankScore :: "rat option"
  finalScore :: "rat option"
  metadata :: metadata

record SearchOptions =
  query :: string
  searchType :: search_type
  maxResults :: int
  useRerank :: bool
  rerankThreshold :: rat
  includeContent :: bool
  fileTypes :: "string list"
  dateRange :: "(int \<times> int) option"
  tags :: "string list option"
  folders :: "string list option"
  sortBy :: sort_by
  sortOrder :: sort_order

record rerank_item =
  index :: int
  relevance_score :: rat

record history_entry =
  h_query :: string
  h_timestamp :: int
  h_resultCount :: nat

record cache_entry =
  c_results :: "SearchResult list"
  c_timestamp :: int

type_synonym cache_key =
  "string \<times> search_type \<times> bool \<times> string list \<times> string list option \<times> string list option"

record engine_state =
  searchHistory :: "history_entry list"
  searchCache :: "cache_key \<rightharpoonup> cache_entry"

record clock =
  now_lookup :: int
  now_store :: int
  now_history :: int

record env =
  embeddings :: "(string \<Rightarrow> error + rat list) option"
  searchSimilar :: "rat list \<Rightarrow> int \<Rightarrow> (string \<times> rat) list"
  getMarkdownFiles :: "error + TFile list"
  vault_read :: "TFile \<Rightarrow> error + string"
  voyageReady :: bool
  provider_rerank :: "string \<Rightarrow> string list \<Rightarrow> int \<Rightarrow> error + rerank_item list"
  vercelReady :: bool
  generateText :: "(string \<times> string) list \<Rightarrow> nat option \<Rightarrow> error + string"
  toLowerCase :: "string \<Rightarrow> string"
  regexCount :: "string \<Rightarrow> string \<Rightarrow> error + nat"
  regexExecAll :: "string \<Rightarrow> string \<Rightarrow> error + nat list"
  parseFloat :: "string \<Rightarrow> rat option"

subsection \<open>JavaScript primitives\<close>

definition bindE :: "error + 'a \<Rightarrow> ('a \<Rightarrow> error + 'b) \<Rightarrow> error + 'b" where
  "bindE m f = (case m of Inl e \<Rightarrow> Inl e | Inr x \<Rightarrow> f x)"

fun mapE :: "('a \<Rightarrow> error + 'b) \<Rightarrow> 'a list \<Rightarrow> error + 'b list" where
  "mapE f [] = Inr []"
| "mapE f (x # xs) = bindE (f x) (\<lambda>y. bindE (mapE f xs) (\<lambda>ys. Inr (y # ys)))"

definition isSpace :: "char \<Rightarrow> bool" where
  "isSpace c = (c \<in> set [CHR '' '', CHR 0x09, CHR 0x0A, CHR 0x0B, CHR 0x0C, CHR 0x0D])"

definition trim :: "string \<Rightarrow> string" where
  "trim s = rev (dropWhile isSpace (rev (dropWhile isSpace s)))"

definition substring :: "string \<Rightarrow> nat \<Rightarrow> nat \<Rightarrow> string" where
  "substring s a b = take (max a b - min a b) (drop (min a b) s)"

text \<open>\<^verbatim>\<open>s.split(/\s+/)\<close>: the flag says that the scan is inside a run of white space.\<close>

fun splitWs :: "bool \<Rightarrow> string \<Rightarrow> string \<Rightarrow> string list" where
  "splitWs b cur [] = [rev cur]"
| "splitWs b cur (c # cs) =
     (if isSpace c then (if b then splitWs True cur cs else rev cur # splitWs True [] cs)
      else splitWs False (c # cur) cs)"

definition split_ws :: "string \<Rightarrow> string list" where
  "split_ws s = splitWs False [] s"

text \<open>\<^verbatim>\<open>s.split('\n')\<close>\<close>

fun splitLines :: "string \<Rightarrow> string \<Rightarrow> string list" where
  "splitLines cur [] = [rev cur]"
| "splitLines cur (c # cs) =
     (if c = CHR 0x0A then rev cur # splitLines [] cs else splitLines (c # cur) cs)"

fun show_nat :: "nat \<Rightarrow> string" where
  "show_nat n =
     (if n < 10 then [char_of (48 + n)] else show_nat (n div 10) @ [char_of (48 + n mod 10)])"

declare show_nat.simps [simp del]

text \<open>\<^verbatim>\<open>xs.slice(0, n)\<close>: a negative end counts from the end of the array.\<close>

definition slice0 :: "'a list \<Rightarrow> int \<Rightarrow> 'a list" where
  "slice0 xs n = (if n < 0 then take (length xs - nat (- n)) xs else take (nat n) xs)"

text \<open>
  \<^verbatim>\<open>xs.sort(cmp)\<close> is a stable sort: an element is placed before the first element that
  the comparator does not put ahead of it.
\<close>

fun insort_cmp :: "('a \<Rightarrow> 'a \<Rightarrow> rat) \<Rightarrow> 'a \<Rightarrow> 'a list \<Rightarrow> 'a list" where
  "insort_cmp cmp x [] = [x]"
| "insort_cmp cmp x (y # ys) = (if cmp x y \<le> 0 then x # y # ys else y # insort_cmp cmp x ys)"

definition js_sort :: "('a \<Rightarrow> 'a \<Rightarrow> rat) \<Rightarrow> 'a list \<Rightarrow> 'a list" where
  "js_sort cmp xs = foldr (insort_cmp cmp) xs []"

definition localeCompare :: "string \<Rightarrow> string \<Rightarrow> int" where
  "localeCompare a b = (if a < b then - 1 else if a = b then 0 else 1)"

text \<open>A \<^verbatim>\<open>Map\<close> in insertion order: \<^verbatim>\<open>set\<close> keeps the position of a key that is present.\<close>

fun map_set :: "'k \<Rightarrow> 'v \<Rightarrow> ('k \<times> 'v) list \<Rightarrow> ('k \<times> 'v) list" where
  "map_set k v [] = [(k, v)]"
| "map_set k v ((k', v') # m) = (if k = k' then (k, v) # m else (k', v') # map_set k v m)"

text \<open>\<^verbatim>\<open>r.finalScore || r.score\<close>: an absent or zero final score is falsy.\<close>

definition effScore :: "SearchResult \<Rightarrow> rat" where
  "effScore r = (case finalScore r of None \<Rightarrow> score r | Some f \<Rightarrow> if f = 0 then score r else f)"

definition byScore :: "SearchResult \<Rightarrow> SearchResult \<Rightarrow> rat" where
  "byScore a b = effScore b - effScore a"

subsection \<open>Utility methods\<close>

definition extractTitle :: "string \<Rightarrow> string" where
  "extractTitle c =
     (case find (\<lambda>line. prefix ''#'' line) (splitLines [] c) of
        Some firstHeading \<Rightarrow> dropWhile isSpace (dropWhile (\<lambda>x. x = CHR ''#'') firstHeading)
      | None \<Rightarrow> trim (substring c 0 50) @ ''...'')"

text \<open>\<^verbatim>\<open>replace(/#+\s*/g, '')\<close>: the flag says that the scan is inside a match.\<close>

fun stripHeadings :: "bool \<Rightarrow> string \<Rightarrow> string" where
  "stripHeadings b [] = []"
| "stripHeadings b (c # cs) =
     (if c = CHR ''#'' then stripHeadings True cs
      else if b \<and> isSpace c then stripHeadings True cs
      else c # stripHeadings False cs)"

text \<open>\<^verbatim>\<open>replace(/\n+/g, ' ')\<close>\<close>

fun collapseNewlines :: "bool \<Rightarrow> string \<Rightarrow> string" where
  "collapseNewlines b [] = []"
| "collapseNewlines b (c # cs) =
     (if c = CHR 0x0A then (if b then collapseNewlines True cs else CHR '' '' # collapseNewlines True cs)
      else c # collapseNewlines False cs)"

definition extractSummary :: "string \<Rightarrow> string" where
  "extractSummary c =
     (let cleaned = trim (collapseNewlines False (stripHeadings False c))
      in if length cleaned > 200 then substring cleaned 0 200 @ ''...'' else cleaned)"

text \<open>
  \<open>regexExecAll env word c\<close> is the list of the indices at which the successive calls of
  \<^verbatim>\<open>regex.exec(content)\<close> match; building the regular expression may throw.
\<close>

definition findWordContext :: "env \<Rightarrow> string \<Rightarrow> string \<Rightarrow> error + string list" where
  "findWordContext env c word =
     bindE (regexExecAll env word c) (\<lambda>idxs.
       Inr (map (\<lambda>i. trim (substring c (i - 50) (min (length c) (i + length word + 50))))
              (take 2 idxs)))"

fun pushContexts :: "env \<Rightarrow> string \<Rightarrow> string list \<Rightarrow> string list \<Rightarrow> error + string list" where
  "pushContexts env c [] highlights = Inr highlights"
| "pushContexts env c (word # ws) highlights =
     bindE (findWordContext env c word) (\<lambda>contexts. pushContexts env c ws (highlights @ contexts))"

definition extractHighlights :: "env \<Rightarrow> string \<Rightarrow> string \<Rightarrow> error + string list" where
  "extractHighlights env c q =
     bindE (pushContexts env c (split_ws (toLowerCase env q)) []) (\<lambda>highlights.
       Inr (take 3 highlights))"

definition generateCacheKey :: "SearchOptions \<Rightarrow> cache_key" where
  "generateCacheKey options =
     (query options, searchType options, useRerank options, fileTypes options, tags options,
      folders options)"

definition addToHistory :: "int \<Rightarrow> string \<Rightarrow> nat \<Rightarrow> engine_state \<Rightarrow> engine_state" where
  "addToHistory now q resultCount s =
     s\<lparr>searchHistory :=
         take 100 (\<lparr>h_query = q, h_timestamp = now, h_resultCount = resultCount\<rparr> # searchHistory s)\<rparr>"

definition getSearchHistory :: "engine_state \<Rightarrow> history_entry list" where
  "getSearchHistory s = searchHistory s"

definition clearSearchHistory :: "engine_state \<Rightarrow> engine_state" where
  "clearSearchHistory s = s\<lparr>searchHistory := []\<rparr>"

definition clearCache :: "engine_state \<Rightarrow> engine_state" where
  "clearCache s = s\<lparr>searchCache := Map.empty\<rparr>"

text \<open>The state of a newly constructed engine.\<close>

definition init_state :: engine_state where
  "init_state = \<lparr>searchHistory = [], searchCache = Map.empty\<rparr>"

definition cacheTimeout :: int where
  "cacheTimeout = 5 * 60 * 1000"

subsection \<open>The search strategies\<close>

definition semanticResult :: "string \<Rightarrow> nat \<Rightarrow> string \<times> rat \<Rightarrow> string list \<Rightarrow> SearchResult" where
  "semanticResult q i res hl =
     \<lparr>id_r = ''semantic_'' @ show_nat i, title = extractTitle (fst res), content = fst res,
      file_r = None, score = snd res, rerankScore = None, finalScore = None,
      metadata = \<lparr>md_type = Node, md_source = ''rag'', md_path = None, md_tags = None,
        md_created = None, md_modified = None, md_wordCount = None, md_highlights = Some hl\<rparr>\<rparr>"

definition semanticSearch :: "env \<Rightarrow> SearchOptions \<Rightarrow> error + SearchResult list" where
  "semanticSearch env options =
     (case embeddings env of
        None \<Rightarrow> Inl (Error ''Embeddings not available for semantic search'')
      | Some embedQuery \<Rightarrow>
          bindE (embedQuery (query options)) (\<lambda>queryEmbedding.
            let ragResults = searchSimilar env queryEmbedding (maxResults options * 2)
            in mapE (\<lambda>(i, res).
                 bindE (extractHighlights env (fst res) (query options)) (\<lambda>hl.
                   Inr (semanticResult (query options) i res hl)))
                 (enumerate 0 ragResults)))"

text \<open>The loop over the query words of \<^verbatim>\<open>keywordSearch\<close>, on the pair of score and highlights.\<close>

fun scoreWords :: "env \<Rightarrow> string \<Rightarrow> string \<Rightarrow> string list \<Rightarrow> nat \<times> string list
    \<Rightarrow> error + nat \<times> string list" where
  "scoreWords env c contentLower [] acc = Inr acc"
| "scoreWords env c contentLower (word # ws) acc =
     bindE (regexCount env word contentLower) (\<lambda>matches.
       if matches > 0
       then bindE (findWordContext env c word) (\<lambda>contexts.
              scoreWords env c contentLower ws (fst acc + matches, snd acc @ contexts))
       else scoreWords env c contentLower ws (fst acc + matches, snd acc))"

definition keywordResult :: "SearchOptions \<Rightarrow> string list \<Rightarrow> TFile \<Rightarrow> string \<Rightarrow> nat
    \<Rightarrow> string list \<Rightarrow> SearchResult" where
  "keywordResult options queryWords f c sc highlights =
     \<lparr>id_r = ''keyword_'' @ path f, title = basename f,
      content = (if includeContent options then c else extractSummary c),
      file_r = Some f, score = of_nat sc / of_nat (length queryWords), rerankScore = None,
      finalScore = None,
      metadata = \<lparr>md_type = File, md_source = ''vault'', md_path = Some (path f), md_tags = None,
        md_created = Some (ctime f), md_modified = Some (mtime f),
        md_wordCount = Some (length (split_ws c)), md_highlights = Some (take 3 highlights)\<rparr>\<rparr>"

text \<open>The body of the \<^verbatim>\<open>try\<close> block for one file: \<open>None\<close> when the score is zero.\<close>

definition keywordFile :: "env \<Rightarrow> SearchOptions \<Rightarrow> string list \<Rightarrow> TFile
    \<Rightarrow> error + SearchResult option" where
  "keywordFile env options queryWords f =
     bindE (vault_read env f) (\<lambda>c.
       bindE (scoreWords env c (toLowerCase env c) queryWords (0, [])) (\<lambda>(sc, highlights).
         Inr (if sc > 0 then Some (keywordResult options queryWords f c sc highlights) else None)))"

fun keywordLoop :: "env \<Rightarrow> SearchOptions \<Rightarrow> string list \<Rightarrow> TFile list \<Rightarrow> SearchResult list" where
  "keywordLoop env options queryWords [] = []"
| "keywordLoop env options queryWords (f # fs) =
     (case keywordFile env options queryWords f of
        Inr (Some r) \<Rightarrow> r # keywordLoop env options queryWords fs
      | Inr None \<Rightarrow> keywordLoop env options queryWords fs
      | Inl e \<Rightarrow> keywordLoop env options queryWords fs)"

definition keywordSearch :: "env \<Rightarrow> SearchOptions \<Rightarrow> error + SearchResult list" where
  "keywordSearch env options =
     bindE (getMarkdownFiles env) (\<lambda>files.
       let queryWords = split_ws (toLowerCase env (query options))
       in Inr (js_sort (\<lambda>a b. score b - score a) (keywordLoop env options queryWords files)))"

definition addSemantic :: "(string \<times> SearchResult) list \<Rightarrow> SearchResult \<Rightarrow> (string \<times> SearchResult) list" where
  "addSemantic m r = map_set (id_r r) (r\<lparr>finalScore := Some (score r * 0.7)\<rparr>) m"

definition addKeyword :: "(string \<times> SearchResult) list \<Rightarrow> SearchResult \<Rightarrow> (string \<times> SearchResult) list" where
  "addKeyword m r =
     (case map_of m (id_r r) of
        Some existing \<Rightarrow>
          map_set (id_r r)
            (existing\<lparr>finalScore := Some (effScore existing + score r * 0.3),
               metadata := (metadata existing)\<lparr>md_highlights :=
                 Some (take 5 (case_option [] (\<lambda>h. h) (md_highlights (metadata existing)) @
                               case_option [] (\<lambda>h. h) (md_highlights (metadata r))))\<rparr>\<rparr>) m
      | None \<Rightarrow> map_set (id_r r) (r\<lparr>finalScore := Some (score r * 0.3)\<rparr>) m)"

definition combine :: "SearchResult list \<Rightarrow> SearchResult list \<Rightarrow> (string \<times> SearchResult) list" where
  "combine semanticResults keywordResults =
     foldl addKeyword (foldl addSemantic [] semanticResults) keywordResults"

definition hybridSearch :: "env \<Rightarrow> SearchOptions \<Rightarrow> error + SearchResult list" where
  "hybridSearch env options =
     (let semanticResults = (case semanticSearch env options of Inl e \<Rightarrow> [] | Inr rs \<Rightarrow> rs)
      in bindE (keywordSearch env options) (\<lambda>keywordResults.
           Inr (js_sort byScore (map snd (combine semanticResults keywordResults)))))"

subsection \<open>Query expansion and relevance analysis\<close>

text \<open>\<^verbatim>\<open>generateQuestions\<close> of the text generation provider: the non-blank lines of the reply.\<close>

definition generateQuestions :: "env \<Rightarrow> string \<Rightarrow> nat \<Rightarrow> error + string list" where
  "generateQuestions env c n =
     bindE (generateText env
        [(''system'', ''You are an educational content expert. Generate '' @ show_nat n @
            '' thoughtful questions based on the given content that would help someone understand and engage with the material better.''),
         (''user'', ''Content:'' @ [CHR 0x0A, CHR 0x0A] @ c @ [CHR 0x0A, CHR 0x0A] @ ''Generate '' @
            show_nat n @ '' questions about this content.'')] None)
       (\<lambda>response. Inr (take n (filter (\<lambda>line. length (trim line) > 0) (splitLines [] response))))"

definition dedupKey :: "SearchResult \<Rightarrow> string" where
  "dedupKey r = (case file_r r of Some f \<Rightarrow> if path f = [] then title r else path f | None \<Rightarrow> title r)"

definition dedupStep :: "(string \<times> SearchResult) list \<Rightarrow> SearchResult \<Rightarrow> (string \<times> SearchResult) list" where
  "dedupStep seen r =
     (case map_of seen (dedupKey r) of
        None \<Rightarrow> map_set (dedupKey r) r seen
      | Some existing \<Rightarrow>
          if effScore r > effScore existing then map_set (dedupKey r) r seen else seen)"

definition deduplicateResults :: "SearchResult list \<Rightarrow> SearchResult list" where
  "deduplicateResults results = map snd (foldl dedupStep [] results)"

text \<open>The callback of \<^verbatim>\<open>analyzeResultsWithAI\<close> for one result, with its own \<^verbatim>\<open>catch\<close>.\<close>

definition analyzeOne :: "env \<Rightarrow> string \<Rightarrow> SearchResult \<Rightarrow> SearchResult" where
  "analyzeOne env q r =
     (case generateText env
        [(''system'', ''You are a search relevance analyzer. Rate the relevance of the given content to the search query on a scale of 0-1.''),
         (''user'', ''Query: '' @ [CHR 0x22] @ q @ [CHR 0x22, CHR 0x0A, CHR 0x0A] @ ''Content: '' @
            [CHR 0x22] @ substring (content r) 0 500 @ [CHR 0x22, CHR 0x0A, CHR 0x0A] @
            ''Relevance score (0-1):'')] (Some 10) of
        Inl e \<Rightarrow> r
      | Inr analysis \<Rightarrow>
          (let aiScore = (case parseFloat env (trim analysis) of
                            None \<Rightarrow> score r
                          | Some v \<Rightarrow> if v = 0 then score r else v)
           in r\<lparr>finalScore := Some (score r * 0.5 + aiScore * 0.5)\<rparr>))"

definition analyzeResultsWithAI :: "env \<Rightarrow> string \<Rightarrow> SearchResult list \<Rightarrow> SearchResult list" where
  "analyzeResultsWithAI env q results =
     (if \<not> vercelReady env \<or> results = [] then results
      else js_sort byScore (map (analyzeOne env q) results))"

fun hybridAll :: "env \<Rightarrow> SearchOptions \<Rightarrow> string list \<Rightarrow> error + SearchResult list" where
  "hybridAll env options [] = Inr []"
| "hybridAll env options (q # qs) =
     bindE (hybridSearch env (options\<lparr>query := q\<rparr>)) (\<lambda>results.
       bindE (hybridAll env options qs) (\<lambda>rest. Inr (results @ rest)))"

definition aiEnhancedSearch :: "env \<Rightarrow> SearchOptions \<Rightarrow> error + SearchResult list" where
  "aiEnhancedSearch env options =
     (if \<not> vercelReady env then hybridSearch env options
      else
        (case bindE (generateQuestions env (''Search query: '' @ query options) 3) (\<lambda>expandedQueries.
                bindE (hybridAll env options (query options # expandedQueries)) (\<lambda>allResults.
                  Inr (analyzeResultsWithAI env (query options) (deduplicateResults allResults)))) of
           Inr analyzedResults \<Rightarrow> Inr analyzedResults
         | Inl e \<Rightarrow> hybridSearch env options))"

subsection \<open>Reranking\<close>

text \<open>\<^verbatim>\<open>VoyageAIIntegration.rerankOnly\<close>: \<open>None\<close> is the \<^verbatim>\<open>null\<close> returned when not ready.\<close>

definition rerankOnly :: "env \<Rightarrow> string \<Rightarrow> string list \<Rightarrow> int \<Rightarrow> error + rerank_item list option" where
  "rerankOnly env q documents topK =
     (if \<not> voyageReady env then Inr None
      else bindE (provider_rerank env q documents topK) (\<lambda>response. Inr (Some response)))"

text \<open>
  The callback of \<^verbatim>\<open>map\<close> in \<^verbatim>\<open>rerankResults\<close>: reading \<^verbatim>\<open>score\<close> of
  \<^verbatim>\<open>results[item.index]\<close> throws a \<^verbatim>\<open>TypeError\<close> when the index is out of range.
\<close>

definition rerankItem :: "SearchResult list \<Rightarrow> rerank_item \<Rightarrow> error + SearchResult" where
  "rerankItem results item =
     (if 0 \<le> index item \<and> index item < int (length results)
      then (let originalResult = results ! nat (index item)
            in Inr (originalResult\<lparr>rerankScore := Some (relevance_score item),
                   finalScore := Some (score originalResult * 0.3 + relevance_score item * 0.7)\<rparr>))
      else Inl (Error ''TypeError''))"

definition rerankResults :: "env \<Rightarrow> string \<Rightarrow> SearchResult list \<Rightarrow> SearchOptions \<Rightarrow> SearchResult list" where
  "rerankResults env q results options =
     (if \<not> voyageReady env \<or> results = [] then results
      else
        (case bindE (rerankOnly env q (map content results) (maxResults options)) (\<lambda>rerankResponse.
                case rerankResponse of
                  None \<Rightarrow> Inr results
                | Some data \<Rightarrow>
                    bindE (mapE (rerankItem results)
                            (filter (\<lambda>item. relevance_score item \<ge> rerankThreshold options) data))
                      (\<lambda>rerankedResults. Inr (js_sort byScore rerankedResults))) of
           Inr r \<Rightarrow> r
         | Inl e \<Rightarrow> results))"

subsection \<open>Filters and sorting\<close>

definition fileTypeOk :: "SearchOptions \<Rightarrow> SearchResult \<Rightarrow> bool" where
  "fileTypeOk options r =
     (case file_r r of None \<Rightarrow> True | Some f \<Rightarrow> extension f \<in> set (fileTypes options))"

definition dateOk :: "int \<times> int \<Rightarrow> SearchResult \<Rightarrow> bool" where
  "dateOk rng r =
     (case md_modified (metadata r) of
        None \<Rightarrow> True
      | Some modifiedDate \<Rightarrow> modifiedDate \<ge> fst rng \<and> modifiedDate \<le> snd rng)"

definition tagsOk :: "string list \<Rightarrow> SearchResult \<Rightarrow> bool" where
  "tagsOk ts r =
     (case md_tags (metadata r) of
        None \<Rightarrow> False
      | Some rtags \<Rightarrow> list_ex (\<lambda>tag. tag \<in> set rtags) ts)"

definition foldersOk :: "string list \<Rightarrow> SearchResult \<Rightarrow> bool" where
  "foldersOk fs r =
     (case md_path (metadata r) of
        None \<Rightarrow> False
      | Some p \<Rightarrow> if p = [] then False else list_ex (\<lambda>folder. prefix folder p) fs)"

definition applyFilters :: "SearchResult list \<Rightarrow> SearchOptions \<Rightarrow> SearchResult list" where
  "applyFilters results options =
     (let filtered = results;
          filtered = (if length (fileTypes options) > 0
                      then filter (fileTypeOk options) filtered else filtered);
          filtered = (case dateRange options of
                        Some rng \<Rightarrow> filter (dateOk rng) filtered
                      | None \<Rightarrow> filtered);
          filtered = (case tags options of
                        Some ts \<Rightarrow> if length ts > 0 then filter (tagsOk ts) filtered else filtered
                      | None \<Rightarrow> filtered);
          filtered = (case folders options of
                        Some fs \<Rightarrow> if length fs > 0 then filter (foldersOk fs) filtered else filtered
                      | None \<Rightarrow> filtered)
      in filtered)"

definition modifiedTime :: "SearchResult \<Rightarrow> int" where
  "modifiedTime r = (case md_modified (metadata r) of None \<Rightarrow> 0 | Some t \<Rightarrow> t)"

definition wordCountOf :: "SearchResult \<Rightarrow> nat" where
  "wordCountOf r = (case md_wordCount (metadata r) of None \<Rightarrow> 0 | Some n \<Rightarrow> n)"

definition sortCompare :: "SearchOptions \<Rightarrow> SearchResult \<Rightarrow> SearchResult \<Rightarrow> rat" where
  "sortCompare options a b =
     (let comparison =
        (case sortBy options of
           Relevance \<Rightarrow> effScore b - effScore a
         | Date \<Rightarrow> of_int (modifiedTime b - modifiedTime a)
         | Title \<Rightarrow> of_int (localeCompare (title a) (title b))
         | Size \<Rightarrow> of_int (int (wordCountOf b) - int (wordCountOf a)))
      in if sortOrder options = Desc then comparison else - comparison)"

definition sortResults :: "SearchResult list \<Rightarrow> SearchOptions \<Rightarrow> SearchResult list" where
  "sortResults results options = js_sort (sortCompare options) results"

subsection \<open>The orchestrator\<close>

definition runStrategy :: "env \<Rightarrow> SearchOptions \<Rightarrow> error + SearchResult list" where
  "runStrategy env options =
     (case searchType options of
        Semantic \<Rightarrow> semanticSearch env options
      | Keyword \<Rightarrow> keywordSearch env options
      | Hybrid \<Rightarrow> hybridSearch env options
      | AiEnhanced \<Rightarrow> aiEnhancedSearch env options)"

text \<open>The \<^verbatim>\<open>try\<close> block of \<^verbatim>\<open>search\<close> up to the truncation of the result list.\<close>

definition pipeline :: "env \<Rightarrow> SearchOptions \<Rightarrow> error + SearchResult list" where
  "pipeline env options =
     bindE (runStrategy env options) (\<lambda>results.
       let results = (if useRerank options \<and> voyageReady env
                      then rerankResults env (query options) results options else results);
           results = applyFilters results options;
           results = sortResults results options
       in Inr (slice0 results (maxResults options)))"

text \<open>The rest of \<^verbatim>\<open>search\<close> after a cache miss: an error leaves the state as it was.\<close>

definition executeSearch :: "env \<Rightarrow> clock \<Rightarrow> SearchOptions \<Rightarrow> engine_state
    \<Rightarrow> (error + SearchResult list) \<times> engine_state" where
  "executeSearch env clk options s =
     (case pipeline env options of
        Inl e \<Rightarrow> (Inl e, s)
      | Inr results \<Rightarrow>
          (Inr results,
           addToHistory (now_history clk) (query options) (length results)
             (s\<lparr>searchCache := (searchCache s)(generateCacheKey options \<mapsto>
                  \<lparr>c_results = results, c_timestamp = now_store clk\<rparr>)\<rparr>)))"

text \<open>The cache lookup at the head of \<^verbatim>\<open>search\<close>: the results of a live entry.\<close>

definition cachedResults :: "clock \<Rightarrow> SearchOptions \<Rightarrow> engine_state \<Rightarrow> SearchResult list option" where
  "cachedResults clk options s =
     (case searchCache s (generateCacheKey options) of
        Some cached \<Rightarrow>
          if now_lookup clk - c_timestamp cached < cacheTimeout then Some (c_results cached)
          else None
      | None \<Rightarrow> None)"

definition search :: "env \<Rightarrow> clock \<Rightarrow> SearchOptions \<Rightarrow> engine_state
    \<Rightarrow> (error + SearchResult list) \<times> engine_state" where
  "search env clk options s =
     (case cachedResults clk options s of
        Some results \<Rightarrow> (Inr results, s)
      | None \<Rightarrow> executeSearch env clk options s)"

subsection \<open>Analytics\<close>

record analytics =
  totalSearches :: nat
  topQueries :: "(string \<times> nat) list"
  averageResults :: rat
  searchTypes :: "(string \<times> nat) list"

definition countQuery :: "(string \<times> nat) list \<Rightarrow> string \<Rightarrow> (string \<times> nat) list" where
  "countQuery queryCount q =
     map_set q ((case map_of queryCount q of None \<Rightarrow> 0 | Some c \<Rightarrow> c) + 1) queryCount"

definition getSearchAnalytics :: "engine_state \<Rightarrow> analytics" where
  "getSearchAnalytics s =
     (let queryCount = foldl countQuery [] (map h_query (searchHistory s));
          totalResults = sum_list (map h_resultCount (searchHistory s));
          topQueries = take 10 (js_sort (\<lambda>a b. of_nat (snd b) - of_nat (snd a)) queryCount)
      in \<lparr>totalSearches = length (searchHistory s),
          topQueries = topQueries,
          averageResults = (if length (searchHistory s) > 0
                            then of_nat totalResults / of_nat (length (searchHistory s)) else 0),
          searchTypes = [(''semantic'', 0), (''keyword'', 0), (''hybrid'', 0), (''ai_enhanced'', 0)]\<rparr>)"

section \<open>Auxiliary definitions and sample inputs\<close>

text \<open>A sequence of calls of \<^verbatim>\<open>search\<close>, each with its collaborators and clock readings.\<close>

definition runSearches :: "(env \<times> clock \<times> SearchOptions) list \<Rightarrow> engine_state \<Rightarrow> engine_state" where
  "runSearches calls s = foldl (\<lambda>s (e, clk, options). snd (search e clk options s)) s calls"

text \<open>
  A vault with one file whose content is the query word, and a vector index with one
  neighbour of similarity 0.9.
\<close>

definition fileB :: TFile where
  "fileB = \<lparr>path = ''notes/b.md'', basename = ''b'', extension = ''md'', ctime = 1000, mtime = 2000\<rparr>"

definition sample_env :: env where
  "sample_env =
     \<lparr>embeddings = Some (\<lambda>q. Inr [1]),
      searchSimilar = (\<lambda>v k. [(''alpha text'', 0.9)]),
      getMarkdownFiles = Inr [fileB],
      vault_read = (\<lambda>f. Inr ''beta''),
      voyageReady = False,
      provider_rerank = (\<lambda>q docs k. Inr []),
      vercelReady = False,
      generateText = (\<lambda>m k. Inl (Error ''offline'')),
      toLowerCase = (\<lambda>s. s),
      regexCount = (\<lambda>w c. Inr (if w = c then 1 else 0)),
      regexExecAll = (\<lambda>w c. Inr []),
      parseFloat = (\<lambda>s. None)\<rparr>"

definition sample_options :: SearchOptions where
  "sample_options =
     \<lparr>query = ''beta'', searchType = Hybrid, maxResults = 10, useRerank = False,
      rerankThreshold = 0.5, includeContent = True, fileTypes = [], dateRange = None,
      tags = None, folders = None, sortBy = Relevance, sortOrder = Desc\<rparr>"

definition entry0 :: history_entry where
  "entry0 = \<lparr>h_query = ''beta'', h_timestamp = 0, h_resultCount = 2\<rparr>"

definition clock0 :: clock where
  "clock0 = \<lparr>now_lookup = 0, now_store = 1, now_history = 2\<rparr>"

text \<open>A result of the semantic strategy (no file, no path, no tags, no date) and a PDF file.\<close>

definition nodeA :: SearchResult where
  "nodeA = semanticResult ''beta'' 0 (''alpha text'', 0.9) []"

definition pdfDoc :: SearchResult where
  "pdfDoc = keywordResult sample_options [''beta'']
     \<lparr>path = ''notes/c.pdf'', basename = ''c'', extension = ''pdf'', ctime = 1000, mtime = 2000\<rparr>
     ''beta'' 1 []"

definition folder_options :: SearchOptions where
  "folder_options = sample_options\<lparr>folders := Some [''notes'']\<rparr>"

definition filter_options :: SearchOptions where
  "filter_options = sample_options\<lparr>fileTypes := [''md''], dateRange := Some (0, 5000)\<rparr>"

definition tag_options :: SearchOptions where
  "tag_options = sample_options\<lparr>tags := Some [''todo'']\<rparr>"

text \<open>Two results whose titles are in ascending order.\<close>

definition docAlpha :: SearchResult where
  "docAlpha = semanticResult ''q'' 0 (''# alpha'', 0.5) []"

definition docBeta :: SearchResult where
  "docBeta = semanticResult ''q'' 1 (''# beta'', 0.4) []"

definition title_asc_options :: SearchOptions where
  "title_asc_options = sample_options\<lparr>sortBy := Title, sortOrder := Asc\<rparr>"

text \<open>
  Collaborators that fail: no embedding provider and no vault; no embedding provider only; no
  vault only. Clock readings just inside and just outside the five minutes after \<open>clock0\<close>.
\<close>

definition offline_env :: env where
  "offline_env = sample_env\<lparr>embeddings := None, getMarkdownFiles := Inl (Error ''vault unavailable'')\<rparr>"

definition no_embed_env :: env where
  "no_embed_env = sample_env\<lparr>embeddings := None\<rparr>"

definition semantic_options :: SearchOptions where
  "semantic_options = sample_options\<lparr>searchType := Semantic\<rparr>"

definition clock_soon :: clock where
  "clock_soon = \<lparr>now_lookup = 300000, now_store = 300001, now_history = 300002\<rparr>"

definition clock_late :: clock where
  "clock_late = \<lparr>now_lookup = 300001, now_store = 300002, now_history = 300003\<rparr>"

definition no_vault_env :: env where
  "no_vault_env = sample_env\<lparr>getMarkdownFiles := Inl (Error ''vault unavailable'')\<rparr>"

text \<open>
  The entries that \<^verbatim>\<open>hybridSearch\<close> stores for a semantic result and for a keyword result
  whose id is new, and the entry it rewrites when a keyword result meets an id that is
  present; the association lists whose keys are distinct and are the ids of their values; the
  files for which \<^verbatim>\<open>keywordSearch\<close> pushes a result.
\<close>

definition semW :: "SearchResult \<Rightarrow> SearchResult" where
  "semW r = r\<lparr>finalScore := Some (score r * 0.7)\<rparr>"

definition kwW :: "SearchResult \<Rightarrow> SearchResult" where
  "kwW r = r\<lparr>finalScore := Some (score r * 0.3)\<rparr>"

definition merged :: "SearchResult \<Rightarrow> SearchResult \<Rightarrow> SearchResult" where
  "merged existing r = existing\<lparr>finalScore := Some (effScore existing + score r * 0.3),
               metadata := (metadata existing)\<lparr>md_highlights :=
                 Some (take 5 (case_option [] (\<lambda>h. h) (md_highlights (metadata existing)) @
                               case_option [] (\<lambda>h. h) (md_highlights (metadata r))))\<rparr>\<rparr>"

definition keyed :: "(string \<times> SearchResult) list \<Rightarrow> bool" where
  "keyed m = (distinct (map fst m) \<and> list_all (\<lambda>(k, v). id_r v = k) m)"

definition fileMatches :: "env \<Rightarrow> SearchOptions \<Rightarrow> string list \<Rightarrow> TFile \<Rightarrow> bool" where
  "fileMatches e options qw f = (case keywordFile e options qw f of Inr (Some r) \<Rightarrow> True | _ \<Rightarrow> False)"

text \<open>
  The keyword result for \<open>fileB\<close>, and a vector index that returns the neighbour of
  \<open>sample_env\<close> in second place.
\<close>

definition docB :: SearchResult where
  "docB = keywordResult sample_options [''beta''] fileB ''beta'' 1 []"

definition sample_env2 :: env where
  "sample_env2 = sample_env\<lparr>searchSimilar := (\<lambda>v k. [(''other text'', 0.8), (''alpha text'', 0.9)])\<rparr>"




text \<open>A state whose history holds three searches, two of them for the same query.\<close>

definition history_state :: engine_state where
  "history_state =
     \<lparr>searchHistory =
        [\<lparr>h_query = ''alpha'', h_timestamp = 30, h_resultCount = 1\<rparr>,
         \<lparr>h_query = ''beta'', h_timestamp = 20, h_resultCount = 3\<rparr>,
         \<lparr>h_query = ''alpha'', h_timestamp = 10, h_resultCount = 2\<rparr>],
      searchCache = Map.empty\<rparr>"

text \<open>
  The history entries of the calls of a sequence that ran the pipeline to its end: the
  calls that were not answered from the cache and did not fail, in the order of the calls.
\<close>

fun executed :: "(env \<times> clock \<times> SearchOptions) list \<Rightarrow> engine_state \<Rightarrow> history_entry list" where
  "executed [] s = []"
| "executed ((e, clk, options) # calls) s =
     (case cachedResults clk options s of
        Some cached \<Rightarrow> []
      | None \<Rightarrow>
          (case pipeline e options of
             Inl err \<Rightarrow> []
           | Inr rs \<Rightarrow> [\<lparr>h_query = query options, h_timestamp = now_history clk,
                         h_resultCount = length rs\<rparr>]))
     @ executed calls (snd (search e clk options s))"

text \<open>
  150 searches with the same options, each 400 seconds after the one before, so that each
  finds the entry of the one before expired.
\<close>

definition tick :: "nat \<Rightarrow> clock" where
  "tick i = \<lparr>now_lookup = 400000 * int i, now_store = 400000 * int i + 1,
             now_history = 400000 * int i + 2\<rparr>"

definition repeated_calls :: "(env \<times> clock \<times> SearchOptions) list" where
  "repeated_calls = map (\<lambda>i. (sample_env, tick i, sample_options)) [0..<150]"





section \<open>Properties\<close>

subsection \<open>The sample search\<close>

lemma sample_pipeline:
  "map_sum id (map id_r) (pipeline sample_env sample_options) =
     Inr [''semantic_0'', ''keyword_notes/b.md'']"
  by code_simp

lemma offline_pipeline: "pipeline offline_env sample_options = Inl (Error ''vault unavailable'')"
  by code_simp

subsection \<open>The search history\<close>

lemma executeSearch_history_length:
  "length (searchHistory s) \<le> 100 \<Longrightarrow> length (searchHistory (snd (executeSearch e clk options s))) \<le> 100"
  by (simp add: executeSearch_def addToHistory_def split: sum.splits)

lemma search_history_length:
  "length (searchHistory s) \<le> 100 \<Longrightarrow> length (searchHistory (snd (search e clk options s))) \<le> 100"
  by (simp add: search_def executeSearch_history_length split: option.splits)

lemma runSearches_length:
  "length (searchHistory s) \<le> 100 \<Longrightarrow> length (searchHistory (runSearches calls s)) \<le> 100"
  unfolding runSearches_def
  by (induction calls arbitrary: s) (auto simp: search_history_length split: prod.splits)

lemma addToHistory_entry:
  "addToHistory (h_timestamp e) (h_query e) (h_resultCount e) s =
     s\<lparr>searchHistory := take 100 (e # searchHistory s)\<rparr>"
  by (cases e) (simp add: addToHistory_def)

lemma foldl_addToHistory:
  "length (searchHistory s) \<le> 100 \<Longrightarrow>
   searchHistory (foldl (\<lambda>s e. addToHistory (h_timestamp e) (h_query e) (h_resultCount e) s) s es)
     = take 100 (rev es @ searchHistory s)"
proof (induction es arbitrary: s)
  case Nil
  then show ?case by simp
next
  case (Cons e es)
  let ?s' = "s\<lparr>searchHistory := take 100 (e # searchHistory s)\<rparr>"
  have eq: "take 100 (rev es @ take 100 (e # searchHistory s)) = take 100 (rev es @ e # searchHistory s)"
    by (simp add: take_Cons' min_def)
  have len: "length (searchHistory ?s') \<le> 100"
    by simp
  have "searchHistory (foldl (\<lambda>s e. addToHistory (h_timestamp e) (h_query e) (h_resultCount e) s) ?s' es)
      = take 100 (rev es @ searchHistory ?s')"
    by (rule Cons.IH[OF len])
  then show ?case
    using eq by (simp only: foldl_Cons addToHistory_entry) simp
qed

lemma search_history_executed:
  "length (searchHistory s) \<le> 100 \<Longrightarrow>
   searchHistory (snd (search e clk options s)) =
     take 100 (executed [(e, clk, options)] s @ searchHistory s)"
  by (simp add: search_def executeSearch_def addToHistory_def split: option.splits sum.splits)

lemma take_append_take: "take n (xs @ take n ys) = take n (xs @ ys)"
  by (simp add: min_def)

lemma runSearches_executed:
  "length (searchHistory s) \<le> 100 \<Longrightarrow>
   searchHistory (runSearches calls s) = take 100 (rev (executed calls s) @ searchHistory s)"
proof (induction calls arbitrary: s)
  case Nil
  then show ?case by (simp add: runSearches_def)
next
  case (Cons c calls)
  obtain e clk options where c: "c = (e, clk, options)" by (cases c)
  let ?s' = "snd (search e clk options s)"
  let ?new = "executed [(e, clk, options)] s"
  have len: "length (searchHistory ?s') \<le> 100"
    using Cons.prems by (rule search_history_length)
  have step: "searchHistory ?s' = take 100 (?new @ searchHistory s)"
    using Cons.prems by (rule search_history_executed)
  have run: "runSearches (c # calls) s = runSearches calls ?s'"
    by (simp add: runSearches_def c)
  have ex: "executed (c # calls) s = ?new @ executed calls ?s'"
    by (simp add: c)
  have "searchHistory (runSearches calls ?s') =
      take 100 (rev (executed calls ?s') @ searchHistory ?s')"
    using len by (rule Cons.IH)
  also have "\<dots> = take 100 (rev (executed calls ?s') @ ?new @ searchHistory s)"
    unfolding step by (rule take_append_take)
  also have "\<dots> = take 100 (rev (executed (c # calls) s) @ searchHistory s)"
    unfolding ex by (simp split: option.splits sum.splits)
  finally show ?case unfolding run .
qed

text \<open>
  C6: the search history never holds more than 100 entries. After any sequence of searches
  on a new engine the history is the list of the entries of the searches that ran the
  pipeline to its end, newest first, cut at 100: the oldest are dropped first and repeated
  queries are all kept. A search that is not answered from the cache and succeeds, whether
  the cache has no entry for its key or an expired one, puts its entry at the front; a
  search answered from the cache and a search that fails leave the history as it is. The
  same holds of any sequence of calls of \<^verbatim>\<open>addToHistory\<close>.
\<close>

theorem history_bounded:
  "length (getSearchHistory (runSearches calls init_state)) \<le> 100 \<and>
   getSearchHistory (runSearches calls init_state) = take 100 (rev (executed calls init_state)) \<and>
   (cachedResults clk options s = None \<and> pipeline e options = Inr rs \<longrightarrow>
      getSearchHistory (snd (search e clk options s)) =
        take 100 (\<lparr>h_query = query options, h_timestamp = now_history clk, h_resultCount = length rs\<rparr>
                   # getSearchHistory s)) \<and>
   (cachedResults clk options s = Some cached \<longrightarrow>
      getSearchHistory (snd (search e clk options s)) = getSearchHistory s) \<and>
   (pipeline e options = Inl err \<longrightarrow>
      getSearchHistory (snd (search e clk options s)) = getSearchHistory s) \<and>
   getSearchHistory (foldl (\<lambda>s e. addToHistory (h_timestamp e) (h_query e) (h_resultCount e) s) init_state es)
     = take 100 (rev es)"
proof (intro conjI impI)
  show "length (getSearchHistory (runSearches calls init_state)) \<le> 100"
    unfolding getSearchHistory_def by (rule runSearches_length) (simp add: init_state_def)
  show "getSearchHistory (runSearches calls init_state) = take 100 (rev (executed calls init_state))"
    unfolding getSearchHistory_def by (subst runSearches_executed) (simp_all add: init_state_def)
  show "getSearchHistory (foldl (\<lambda>s e. addToHistory (h_timestamp e) (h_query e) (h_resultCount e) s) init_state es)
     = take 100 (rev es)"
    unfolding getSearchHistory_def by (subst foldl_addToHistory) (simp_all add: init_state_def)
next
  assume "cachedResults clk options s = None \<and> pipeline e options = Inr rs"
  then show "getSearchHistory (snd (search e clk options s)) =
        take 100 (\<lparr>h_query = query options, h_timestamp = now_history clk, h_resultCount = length rs\<rparr>
                   # getSearchHistory s)"
    by (simp add: getSearchHistory_def search_def executeSearch_def addToHistory_def)
next
  assume "cachedResults clk options s = Some cached"
  then show "getSearchHistory (snd (search e clk options s)) = getSearchHistory s"
    by (simp add: getSearchHistory_def search_def)
next
  assume "pipeline e options = Inl err"
  then show "getSearchHistory (snd (search e clk options s)) = getSearchHistory s"
    by (simp add: getSearchHistory_def search_def executeSearch_def split: option.splits)
qed

lemma repeated_history:
  "map (\<lambda>h. (h_query h, h_timestamp h, h_resultCount h))
     (getSearchHistory (runSearches repeated_calls init_state)) =
   map (\<lambda>i. (''beta'', 400000 * int i + 2, 2)) (rev [50..<150])"
  by code_simp

lemma sample_history_steps:
  "cachedResults clock_late sample_options (snd (search sample_env clock0 sample_options init_state)) = None"
  "map_option (map id_r)
     (cachedResults clock_soon sample_options (snd (search sample_env clock0 sample_options init_state))) =
     Some [''semantic_0'', ''keyword_notes/b.md'']"
  by code_simp+

theorem history_bounded_witness:
  "getSearchHistory (runSearches repeated_calls init_state) =
     take 100 (rev (executed repeated_calls init_state)) \<and>
   map (\<lambda>h. (h_query h, h_timestamp h, h_resultCount h))
     (getSearchHistory (runSearches repeated_calls init_state)) =
     map (\<lambda>i. (''beta'', 400000 * int i + 2, 2)) (rev [50..<150]) \<and>
   length (getSearchHistory (runSearches repeated_calls init_state)) = 100 \<and>
   length (getSearchHistory (snd (search sample_env clock0 sample_options init_state))) = 1 \<and>
   length (getSearchHistory (snd (search sample_env clock_late sample_options
     (snd (search sample_env clock0 sample_options init_state))))) = 2 \<and>
   length (getSearchHistory (snd (search sample_env clock_soon sample_options
     (snd (search sample_env clock0 sample_options init_state))))) = 1 \<and>
   length (getSearchHistory (snd (search offline_env clock_late sample_options
     (snd (search sample_env clock0 sample_options init_state))))) = 1 \<and>
   length (getSearchHistory (foldl (\<lambda>s e. addToHistory (h_timestamp e) (h_query e) (h_resultCount e) s)
     init_state (replicate 150 entry0))) = 100"
proof -
  let ?s1 = "snd (search sample_env clock0 sample_options init_state)"
  obtain rs where rs: "pipeline sample_env sample_options = Inr rs"
    using sample_pipeline by (cases "pipeline sample_env sample_options") auto
  have miss0: "cachedResults clock0 sample_options init_state = None"
    by (simp add: cachedResults_def init_state_def)
  obtain cached where hit: "cachedResults clock_soon sample_options ?s1 = Some cached"
    using sample_history_steps(2) by (cases "cachedResults clock_soon sample_options ?s1") auto
  note t0 = history_bounded[of repeated_calls clock0 sample_options init_state sample_env rs]
  note t1 = history_bounded[of repeated_calls clock_late sample_options ?s1 sample_env rs]
  note t2 = history_bounded[of repeated_calls clock_soon sample_options ?s1 sample_env rs cached]
  note t3 = history_bounded[of repeated_calls clock_late sample_options ?s1 offline_env rs cached
      "Error ''vault unavailable''" "replicate 150 entry0"]
  have a: "getSearchHistory (runSearches repeated_calls init_state) =
     take 100 (rev (executed repeated_calls init_state))"
    using t0 by blast
  have l0: "length (getSearchHistory ?s1) = 1"
    using t0 miss0 rs by (simp add: getSearchHistory_def init_state_def)
  have l1: "length (getSearchHistory (snd (search sample_env clock_late sample_options ?s1))) = 2"
    using t1 sample_history_steps(1) rs l0 by simp
  have l2: "length (getSearchHistory (snd (search sample_env clock_soon sample_options ?s1))) = 1"
    using t2 hit l0 by simp
  have l3: "length (getSearchHistory (snd (search offline_env clock_late sample_options ?s1))) = 1"
    using t3 offline_pipeline l0 by simp
  have l4: "length (getSearchHistory (foldl (\<lambda>s e. addToHistory (h_timestamp e) (h_query e) (h_resultCount e) s)
     init_state (replicate 150 entry0))) = 100"
    using t3 by simp
  have b: "length (getSearchHistory (runSearches repeated_calls init_state)) = 100"
    using repeated_history[THEN arg_cong, of length] by simp
  show ?thesis using a repeated_history b l0 l1 l2 l3 l4 by blast
qed

subsection \<open>Sorting with a comparator\<close>

lemma set_insort_cmp: "set (insort_cmp cmp x xs) = insert x (set xs)"
  by (induction xs) auto

lemma set_js_sort: "set (js_sort cmp xs) = set xs"
  by (induction xs) (simp_all add: js_sort_def set_insort_cmp)

lemma mset_insort_cmp: "mset (insort_cmp cmp x xs) = add_mset x (mset xs)"
  by (induction xs) auto

lemma mset_js_sort: "mset (js_sort cmp xs) = mset xs"
  by (induction xs) (simp_all add: js_sort_def mset_insort_cmp)

lemma length_js_sort: "length (js_sort cmp xs) = length xs"
  by (metis mset_js_sort size_mset)

lemma sorted_insort_cmp:
  fixes k :: "'a \<Rightarrow> 'b::linorder"
  assumes key: "\<And>a b. (cmp a b \<le> 0) = (k b \<le> k a)"
    and srt: "sorted_wrt (\<lambda>a b. k b \<le> k a) xs"
  shows "sorted_wrt (\<lambda>a b. k b \<le> k a) (insort_cmp cmp x xs)"
  using srt
proof (induction xs)
  case Nil
  then show ?case by simp
next
  case (Cons y ys)
  show ?case
  proof (cases "cmp x y \<le> 0")
    case True
    then have "k y \<le> k x" using key by simp
    then show ?thesis using True Cons.prems by auto
  next
    case False
    then have "k x \<le> k y" using key[of x y] by simp
    then show ?thesis using False Cons by (auto simp: set_insort_cmp)
  qed
qed

lemma sorted_js_sort:
  fixes k :: "'a \<Rightarrow> 'b::linorder"
  assumes key: "\<And>a b. (cmp a b \<le> 0) = (k b \<le> k a)"
  shows "sorted_wrt (\<lambda>a b. k b \<le> k a) (js_sort cmp xs)"
proof (induction xs)
  case Nil
  then show ?case by (simp add: js_sort_def)
next
  case (Cons x xs)
  have "js_sort cmp (x # xs) = insort_cmp cmp x (js_sort cmp xs)"
    by (simp add: js_sort_def)
  then show ?case
    using sorted_insort_cmp[where cmp = cmp and k = k, OF key Cons.IH] by simp
qed

lemma filter_insort_cmp:
  fixes k :: "'a \<Rightarrow> 'b::linorder"
  assumes key: "\<And>a b. (cmp a b \<le> 0) = (k b \<le> k a)"
    and srt: "sorted_wrt (\<lambda>a b. k b \<le> k a) xs"
  shows "filter (\<lambda>r. k r = t) (insort_cmp cmp x xs) =
         (if k x = t then x # filter (\<lambda>r. k r = t) xs else filter (\<lambda>r. k r = t) xs)"
  using srt
proof (induction xs)
  case Nil
  then show ?case by simp
next
  case (Cons y ys)
  show ?case
  proof (cases "cmp x y \<le> 0")
    case True
    then show ?thesis by simp
  next
    case False
    then have "k y \<noteq> k x" using key[of x y] by auto
    then show ?thesis using False Cons by auto
  qed
qed

lemma stable_js_sort:
  fixes k :: "'a \<Rightarrow> 'b::linorder"
  assumes key: "\<And>a b. (cmp a b \<le> 0) = (k b \<le> k a)"
  shows "filter (\<lambda>r. k r = t) (js_sort cmp xs) = filter (\<lambda>r. k r = t) xs"
proof (induction xs)
  case Nil
  then show ?case by (simp add: js_sort_def)
next
  case (Cons x xs)
  have "js_sort cmp (x # xs) = insort_cmp cmp x (js_sort cmp xs)"
    by (simp add: js_sort_def)
  then show ?case
    using filter_insort_cmp[where cmp = cmp and k = k and xs = "js_sort cmp xs" and x = x and t = t,
        OF key sorted_js_sort[where cmp = cmp and k = k, OF key]] Cons.IH
    by simp
qed

lemma byScore_key: "(byScore a b \<le> 0) = (effScore b \<le> effScore a)"
  by (simp add: byScore_def)

subsection \<open>Filters\<close>

text \<open>
  C5, as stated, fails for the folder filter: a result without a path is removed when a
  folder filter is configured.
\<close>

theorem folder_filter_counterexample:
  "md_path (metadata nodeA) = None \<and> folders folder_options = Some [''notes''] \<and>
   applyFilters [nodeA] folder_options = []"
  by (simp add: nodeA_def semanticResult_def folder_options_def sample_options_def applyFilters_def
      foldersOk_def)

text \<open>
  C5, amended: a result with no backing file passes the file-extension filter and a result
  with no modified timestamp passes the date-range filter; the tag filter rejects a result
  without tags and the folder filter rejects a result without a path. On the whole of
  \<^verbatim>\<open>applyFilters\<close>: a result with neither file nor timestamp survives when no tag or
  folder filter is configured, a file whose extension is not listed is removed, and so is
  a result without tags (without a path) under a tag (folder) filter.
\<close>

theorem filters_missing_attribute:
  "(file_r r = None \<longrightarrow> fileTypeOk options r) \<and>
   (md_modified (metadata r) = None \<longrightarrow> dateOk rng r) \<and>
   (md_tags (metadata r) = None \<longrightarrow> \<not> tagsOk ts r) \<and>
   (md_path (metadata r) = None \<longrightarrow> \<not> foldersOk fs r) \<and>
   (r \<in> set results \<and> file_r r = None \<and> md_modified (metadata r) = None \<and>
      (tags options = None \<or> tags options = Some []) \<and>
      (folders options = None \<or> folders options = Some [])
      \<longrightarrow> r \<in> set (applyFilters results options)) \<and>
   (file_r r = Some f \<and> fileTypes options \<noteq> [] \<and> extension f \<notin> set (fileTypes options)
      \<longrightarrow> r \<notin> set (applyFilters results options)) \<and>
   (md_tags (metadata r) = None \<and> tags options = Some ts \<and> ts \<noteq> []
      \<longrightarrow> r \<notin> set (applyFilters results options)) \<and>
   (md_path (metadata r) = None \<and> folders options = Some fs \<and> fs \<noteq> []
      \<longrightarrow> r \<notin> set (applyFilters results options))"
  by (auto simp: fileTypeOk_def dateOk_def tagsOk_def foldersOk_def applyFilters_def Let_def
      split: option.splits)

theorem filters_missing_attribute_witness:
  "fileTypeOk filter_options nodeA \<and> dateOk (0, 5000) nodeA \<and> \<not> tagsOk [''todo''] nodeA \<and>
   \<not> foldersOk [''notes''] nodeA \<and>
   nodeA \<in> set (applyFilters [nodeA, pdfDoc] filter_options) \<and>
   pdfDoc \<notin> set (applyFilters [nodeA, pdfDoc] filter_options) \<and>
   nodeA \<notin> set (applyFilters [nodeA, pdfDoc] tag_options) \<and>
   nodeA \<notin> set (applyFilters [nodeA, pdfDoc] folder_options)"
proof -
  have a: "file_r nodeA = None" "md_modified (metadata nodeA) = None"
    "md_tags (metadata nodeA) = None" "md_path (metadata nodeA) = None"
    by (simp_all add: nodeA_def semanticResult_def)
  have p: "file_r pdfDoc = Some \<lparr>path = ''notes/c.pdf'', basename = ''c'', extension = ''pdf'', ctime = 1000, mtime = 2000\<rparr>"
    by (simp add: pdfDoc_def keywordResult_def)
  have o: "tags filter_options = None" "folders filter_options = None" "fileTypes filter_options = [''md'']"
    "tags tag_options = Some [''todo'']" "folders folder_options = Some [''notes'']"
    by (simp_all add: filter_options_def tag_options_def folder_options_def sample_options_def)
  show ?thesis
    using filters_missing_attribute[of nodeA filter_options "(0, 5000)" "[''todo'']" "[''notes'']"
        "[nodeA, pdfDoc]"]
      filters_missing_attribute[of pdfDoc filter_options "(0, 5000)" "[''todo'']" "[''notes'']"
        "[nodeA, pdfDoc]" "\<lparr>path = ''notes/c.pdf'', basename = ''c'', extension = ''pdf'', ctime = 1000, mtime = 2000\<rparr>"]
      filters_missing_attribute[of nodeA tag_options "(0, 5000)" "[''todo'']" "[''notes'']"
        "[nodeA, pdfDoc]"]
      filters_missing_attribute[of nodeA folder_options "(0, 5000)" "[''todo'']" "[''notes'']"
        "[nodeA, pdfDoc]"]
      a p o
    by simp
qed

subsection \<open>Sorting the results\<close>

lemma title_asc_key:
  "sortBy options = Title \<Longrightarrow> sortOrder options = Asc \<Longrightarrow>
   (sortCompare options a b \<le> 0) = (title b \<le> title a)"
  by (auto simp: sortCompare_def localeCompare_def)

lemma sortResults_title_asc_general:
  assumes "sortBy options = Title" "sortOrder options = Asc"
  shows "sorted_wrt (\<lambda>a b. title b \<le> title a) (sortResults results options)"
    and "filter (\<lambda>r. title r = t) (sortResults results options) = filter (\<lambda>r. title r = t) results"
  unfolding sortResults_def
  using sorted_js_sort[where cmp = "sortCompare options" and k = title and xs = results]
    stable_js_sort[where cmp = "sortCompare options" and k = title and xs = results and t = t]
    title_asc_key[OF assms]
  by auto

text \<open>
  C4: sorting by title with order \<^verbatim>\<open>asc\<close> should give ascending titles. On two results
  titled alpha and beta, in this order, \<^verbatim>\<open>sortResults\<close> returns beta before alpha.
\<close>

theorem sortResults_title_asc_descends:
  "map title [docAlpha, docBeta] = [''alpha'', ''beta''] \<and>
   map title (sortResults [docAlpha, docBeta] title_asc_options) = [''beta'', ''alpha'']"
  by code_simp

subsection \<open>The cache\<close>

lemma fst_executeSearch: "fst (executeSearch e clk options s) = pipeline e options"
  by (simp add: executeSearch_def split: sum.splits)

lemma executeSearch_cache:
  "pipeline e options = Inr rs \<Longrightarrow>
   searchCache (snd (executeSearch e clk options s)) (generateCacheKey options) =
     Some \<lparr>c_results = rs, c_timestamp = now_store clk\<rparr>"
  by (simp add: executeSearch_def addToHistory_def)

lemma search_hit:
  "searchCache s (generateCacheKey options) = Some c \<Longrightarrow>
   now_lookup clk - c_timestamp c < cacheTimeout \<Longrightarrow>
   search e clk options s = (Inr (c_results c), s)"
  by (simp add: search_def cachedResults_def)

lemma search_miss:
  "cachedResults clk options s = None \<Longrightarrow> search e clk options s = executeSearch e clk options s"
  by (simp add: search_def)

text \<open>
  C2: a second call of \<^verbatim>\<open>search\<close> with the same options, while the cache entry of the
  first call is younger than the five minutes, returns the result list of the first call
  and leaves the state (history and cache) as it is, whatever the collaborators would
  answer: none of them is consulted. Once the entry is five minutes old or older the call
  runs the pipeline again, and its result is what the strategy gives then.
\<close>

theorem search_cached:
  "(cachedResults clk1 options s = None \<and> pipeline env1 options = Inr rs \<and>
      now_lookup clk2 - now_store clk1 < cacheTimeout
      \<longrightarrow> fst (search env1 clk1 options s) = Inr rs \<and>
          search env2 clk2 options (snd (search env1 clk1 options s)) =
            (Inr rs, snd (search env1 clk1 options s))) \<and>
   (searchCache s1 (generateCacheKey options) = Some c \<and>
      now_lookup clk2 - c_timestamp c < cacheTimeout
      \<longrightarrow> search env1 clk2 options s1 = (Inr (c_results c), s1) \<and>
          search env2 clk2 options s1 = (Inr (c_results c), s1)) \<and>
   (searchCache s1 (generateCacheKey options) = Some c \<and>
      \<not> now_lookup clk2 - c_timestamp c < cacheTimeout
      \<longrightarrow> search env2 clk2 options s1 = executeSearch env2 clk2 options s1 \<and>
          fst (search env2 clk2 options s1) = pipeline env2 options)"
proof (intro conjI impI)
  assume h: "cachedResults clk1 options s = None \<and> pipeline env1 options = Inr rs \<and>
      now_lookup clk2 - now_store clk1 < cacheTimeout"
  then have s1: "search env1 clk1 options s = executeSearch env1 clk1 options s"
    by (simp add: search_miss)
  then show "fst (search env1 clk1 options s) = Inr rs"
    using h by (simp add: fst_executeSearch)
  have "searchCache (snd (search env1 clk1 options s)) (generateCacheKey options) =
     Some \<lparr>c_results = rs, c_timestamp = now_store clk1\<rparr>"
    using h s1 by (simp add: executeSearch_cache)
  then show "search env2 clk2 options (snd (search env1 clk1 options s)) =
            (Inr rs, snd (search env1 clk1 options s))"
    using h search_hit[of "snd (search env1 clk1 options s)" options
        "\<lparr>c_results = rs, c_timestamp = now_store clk1\<rparr>" clk2 env2]
    by simp
next
  assume h: "searchCache s1 (generateCacheKey options) = Some c \<and>
      now_lookup clk2 - c_timestamp c < cacheTimeout"
  then show "search env1 clk2 options s1 = (Inr (c_results c), s1)"
    and "search env2 clk2 options s1 = (Inr (c_results c), s1)"
    by (simp_all add: search_hit)
next
  assume h: "searchCache s1 (generateCacheKey options) = Some c \<and>
      \<not> now_lookup clk2 - c_timestamp c < cacheTimeout"
  then have "cachedResults clk2 options s1 = None"
    by (simp add: cachedResults_def)
  then show "search env2 clk2 options s1 = executeSearch env2 clk2 options s1"
    by (simp add: search_miss)
  then show "fst (search env2 clk2 options s1) = pipeline env2 options"
    by (simp add: fst_executeSearch)
qed

theorem search_cached_witness:
  "map_sum id (map id_r) (fst (search sample_env clock0 sample_options init_state)) =
     Inr [''semantic_0'', ''keyword_notes/b.md''] \<and>
   map_sum id (map id_r)
     (fst (search offline_env clock_soon sample_options
        (snd (search sample_env clock0 sample_options init_state)))) =
     Inr [''semantic_0'', ''keyword_notes/b.md''] \<and>
   snd (search offline_env clock_soon sample_options
        (snd (search sample_env clock0 sample_options init_state))) =
     snd (search sample_env clock0 sample_options init_state) \<and>
   fst (search offline_env clock_late sample_options
        (snd (search sample_env clock0 sample_options init_state))) =
     Inl (Error ''vault unavailable'')"
proof -
  let ?s1 = "snd (search sample_env clock0 sample_options init_state)"
  obtain rs where rs: "pipeline sample_env sample_options = Inr rs"
    using sample_pipeline by (cases "pipeline sample_env sample_options") auto
  have ids: "map id_r rs = [''semantic_0'', ''keyword_notes/b.md'']"
    using sample_pipeline rs by simp
  have miss: "cachedResults clock0 sample_options init_state = None"
    by (simp add: cachedResults_def init_state_def)
  have soon: "now_lookup clock_soon - now_store clock0 < cacheTimeout"
    by (simp add: clock_soon_def clock0_def cacheTimeout_def)
  have first: "fst (search sample_env clock0 sample_options init_state) = Inr rs"
    and second: "search offline_env clock_soon sample_options ?s1 = (Inr rs, ?s1)"
    using search_cached[of clock0 sample_options init_state sample_env rs clock_soon offline_env]
      miss rs soon by simp_all
  have entry: "searchCache ?s1 (generateCacheKey sample_options) =
      Some \<lparr>c_results = rs, c_timestamp = now_store clock0\<rparr>"
    using miss rs by (simp add: search_miss executeSearch_cache)
  have late: "\<not> now_lookup clock_late - c_timestamp \<lparr>c_results = rs, c_timestamp = now_store clock0\<rparr>
      < cacheTimeout"
    by (simp add: clock_late_def clock0_def cacheTimeout_def)
  have third: "fst (search offline_env clock_late sample_options ?s1) = pipeline offline_env sample_options"
    using search_cached[of clock0 sample_options init_state sample_env rs clock_late offline_env
        ?s1 "\<lparr>c_results = rs, c_timestamp = now_store clock0\<rparr>"] entry late
    by (simp add: fst_executeSearch)
  show ?thesis
    using first second third ids offline_pipeline by simp
qed

subsection \<open>Errors\<close>

lemma semanticSearch_no_embeddings:
  "embeddings e = None \<Longrightarrow>
   semanticSearch e options = Inl (Error ''Embeddings not available for semantic search'')"
  by (simp add: semanticSearch_def)

text \<open>
  C8: a semantic search without an embedding provider returns the error to the caller (on
  a cache miss; the state is unchanged). Inside a hybrid search a failed semantic
  sub-search counts as an empty list of semantic results, and a failed keyword sub-search
  is the failure of the hybrid search and of \<^verbatim>\<open>search\<close>.
\<close>

theorem search_errors:
  "(searchType options = Semantic \<and> embeddings e = None \<and> cachedResults clk options s = None
      \<longrightarrow> search e clk options s =
            (Inl (Error ''Embeddings not available for semantic search''), s)) \<and>
   (semanticSearch e options = Inl err \<and> keywordSearch e options = Inr keywordResults
      \<longrightarrow> hybridSearch e options = Inr (js_sort byScore (map snd (combine [] keywordResults)))) \<and>
   (keywordSearch e options = Inl err \<longrightarrow> hybridSearch e options = Inl err) \<and>
   (searchType options = Hybrid \<and> keywordSearch e options = Inl err \<and>
      cachedResults clk options s = None
      \<longrightarrow> search e clk options s = (Inl err, s))"
  by (simp add: search_def executeSearch_def pipeline_def runStrategy_def hybridSearch_def
      semanticSearch_no_embeddings bindE_def)

lemma no_vault_keyword: "keywordSearch no_vault_env sample_options = Inl (Error ''vault unavailable'')"
  by code_simp

lemma no_embed_keyword:
  "map_sum id (map id_r) (keywordSearch no_embed_env sample_options) = Inr [''keyword_notes/b.md'']"
  by code_simp

theorem search_errors_witness:
  "fst (search no_embed_env clock0 semantic_options init_state) =
     Inl (Error ''Embeddings not available for semantic search'') \<and>
   map_sum id (map id_r) (hybridSearch no_embed_env sample_options) = Inr [''keyword_notes/b.md''] \<and>
   hybridSearch no_vault_env sample_options = Inl (Error ''vault unavailable'') \<and>
   search no_vault_env clock0 sample_options init_state =
     (Inl (Error ''vault unavailable''), init_state)"
proof -
  have miss: "cachedResults clock0 semantic_options init_state = None"
    "cachedResults clock0 sample_options init_state = None"
    by (simp_all add: cachedResults_def init_state_def)
  have ty: "searchType semantic_options = Semantic" "searchType sample_options = Hybrid"
    by (simp_all add: semantic_options_def sample_options_def)
  have emb: "embeddings no_embed_env = None" by (simp add: no_embed_env_def)
  obtain kw where kw: "keywordSearch no_embed_env sample_options = Inr kw"
    using no_embed_keyword by (cases "keywordSearch no_embed_env sample_options") auto
  have sem: "semanticSearch no_embed_env sample_options =
      Inl (Error ''Embeddings not available for semantic search'')"
    using emb by (rule semanticSearch_no_embeddings)
  have a: "search no_embed_env clock0 semantic_options init_state =
      (Inl (Error ''Embeddings not available for semantic search''), init_state)"
    using search_errors[of semantic_options no_embed_env clock0 init_state] miss ty emb by simp
  have b: "hybridSearch no_embed_env sample_options = Inr (js_sort byScore (map snd (combine [] kw)))"
    using search_errors[of sample_options no_embed_env clock0 init_state
        "Error ''Embeddings not available for semantic search''" kw] sem kw by simp
  have c: "hybridSearch no_vault_env sample_options = Inl (Error ''vault unavailable'')"
    "search no_vault_env clock0 sample_options init_state = (Inl (Error ''vault unavailable''), init_state)"
    using search_errors[of sample_options no_vault_env clock0 init_state "Error ''vault unavailable''"]
      no_vault_keyword miss ty by simp_all
  have d: "map_sum id (map id_r) (hybridSearch no_embed_env sample_options) = Inr [''keyword_notes/b.md'']"
    by code_simp
  show ?thesis using a c d by simp
qed

subsection \<open>The fallback of the AI enhanced strategy\<close>

lemma semanticSearch_type [simp]:
  "semanticSearch e (options\<lparr>searchType := t\<rparr>) = semanticSearch e options"
  by (simp add: semanticSearch_def cong: option.case_cong)

lemma keywordResult_type [simp]:
  "keywordResult (options\<lparr>searchType := t\<rparr>) qw f c sc hl = keywordResult options qw f c sc hl"
  by (simp add: keywordResult_def)

lemma keywordFile_type [simp]:
  "keywordFile e (options\<lparr>searchType := t\<rparr>) qw f = keywordFile e options qw f"
  by (simp add: keywordFile_def cong: prod.case_cong if_cong)

lemma keywordLoop_type [simp]:
  "keywordLoop e (options\<lparr>searchType := t\<rparr>) qw fs = keywordLoop e options qw fs"
  by (induction fs) (simp_all cong: sum.case_cong option.case_cong)

lemma keywordSearch_type [simp]:
  "keywordSearch e (options\<lparr>searchType := t\<rparr>) = keywordSearch e options"
  by (simp add: keywordSearch_def)

lemma hybridSearch_type [simp]:
  "hybridSearch e (options\<lparr>searchType := t\<rparr>) = hybridSearch e options"
  by (simp add: hybridSearch_def)

lemma rerankResults_type [simp]:
  "rerankResults e q rs (options\<lparr>searchType := t\<rparr>) = rerankResults e q rs options"
  by (simp add: rerankResults_def)

lemma fileTypeOk_type [simp]:
  "fileTypeOk (options\<lparr>searchType := t\<rparr>) = fileTypeOk options"
  by (rule ext) (simp add: fileTypeOk_def cong: option.case_cong)

lemma applyFilters_type [simp]:
  "applyFilters rs (options\<lparr>searchType := t\<rparr>) = applyFilters rs options"
  by (simp add: applyFilters_def)

lemma sortCompare_type [simp]:
  "sortCompare (options\<lparr>searchType := t\<rparr>) = sortCompare options"
  by (rule ext, rule ext) (simp add: sortCompare_def)

lemma sortResults_type [simp]:
  "sortResults rs (options\<lparr>searchType := t\<rparr>) = sortResults rs options"
  by (simp add: sortResults_def)

text \<open>
  C7: when the text generation provider is not ready, the AI enhanced strategy is the
  hybrid strategy: the two strategies, the two pipelines (rerank, filters, sort, cut) and,
  when neither call is answered from the cache, the two calls of \<^verbatim>\<open>search\<close> return the
  same list.
\<close>

theorem aiEnhanced_fallback:
  "\<not> vercelReady e \<longrightarrow>
     aiEnhancedSearch e options = hybridSearch e options \<and>
     pipeline e (options\<lparr>searchType := AiEnhanced\<rparr>) = pipeline e (options\<lparr>searchType := Hybrid\<rparr>) \<and>
     (cachedResults clk (options\<lparr>searchType := AiEnhanced\<rparr>) s = None \<and>
      cachedResults clk' (options\<lparr>searchType := Hybrid\<rparr>) s' = None
        \<longrightarrow> fst (search e clk (options\<lparr>searchType := AiEnhanced\<rparr>) s) =
            fst (search e clk' (options\<lparr>searchType := Hybrid\<rparr>) s'))"
proof (intro impI conjI)
  assume nr: "\<not> vercelReady e"
  then show ai: "aiEnhancedSearch e options = hybridSearch e options"
    by (simp add: aiEnhancedSearch_def)
  have "aiEnhancedSearch e (options\<lparr>searchType := AiEnhanced\<rparr>) = hybridSearch e options"
    using nr by (simp add: aiEnhancedSearch_def)
  then show p: "pipeline e (options\<lparr>searchType := AiEnhanced\<rparr>) = pipeline e (options\<lparr>searchType := Hybrid\<rparr>)"
    by (simp add: pipeline_def runStrategy_def cong: if_cong)
  assume "cachedResults clk (options\<lparr>searchType := AiEnhanced\<rparr>) s = None \<and>
      cachedResults clk' (options\<lparr>searchType := Hybrid\<rparr>) s' = None"
  then show "fst (search e clk (options\<lparr>searchType := AiEnhanced\<rparr>) s) =
            fst (search e clk' (options\<lparr>searchType := Hybrid\<rparr>) s')"
    using p by (simp add: search_miss fst_executeSearch)
qed

theorem aiEnhanced_fallback_witness:
  "aiEnhancedSearch sample_env sample_options = hybridSearch sample_env sample_options \<and>
   map_sum id (map id_r) (fst (search sample_env clock0 (sample_options\<lparr>searchType := AiEnhanced\<rparr>) init_state)) =
     Inr [''semantic_0'', ''keyword_notes/b.md''] \<and>
   fst (search sample_env clock0 (sample_options\<lparr>searchType := AiEnhanced\<rparr>) init_state) =
     fst (search sample_env clock0 (sample_options\<lparr>searchType := Hybrid\<rparr>) init_state)"
proof -
  have nr: "\<not> vercelReady sample_env" by (simp add: sample_env_def)
  have miss: "cachedResults clock0 (sample_options\<lparr>searchType := AiEnhanced\<rparr>) init_state = None"
    "cachedResults clock0 (sample_options\<lparr>searchType := Hybrid\<rparr>) init_state = None"
    by (simp_all add: cachedResults_def init_state_def)
  have h: "sample_options\<lparr>searchType := Hybrid\<rparr> = sample_options"
    by (simp add: sample_options_def)
  have eq: "aiEnhancedSearch sample_env sample_options = hybridSearch sample_env sample_options"
    "fst (search sample_env clock0 (sample_options\<lparr>searchType := AiEnhanced\<rparr>) init_state) =
     fst (search sample_env clock0 (sample_options\<lparr>searchType := Hybrid\<rparr>) init_state)"
    using aiEnhanced_fallback[of sample_env sample_options clock0 init_state clock0 init_state] nr miss
    by simp_all
  have "fst (search sample_env clock0 (sample_options\<lparr>searchType := Hybrid\<rparr>) init_state) =
      pipeline sample_env sample_options"
    using miss(2) by (simp add: h search_miss fst_executeSearch)
  then show ?thesis using eq sample_pipeline by simp
qed

subsection \<open>The map of combined results\<close>

lemma map_set_fresh: "k \<notin> fst ` set m \<Longrightarrow> map_set k v m = m @ [(k, v)]"
  by (induction m) auto

lemma map_of_map_set: "map_of (map_set k v m) k' = (if k' = k then Some v else map_of m k')"
  by (induction m) auto

lemma keys_map_set: "fst ` set (map_set k v m) = insert k (fst ` set m)"
proof (induction m)
  case Nil
  then show ?case by simp
next
  case (Cons a m)
  obtain k' v' where a: "a = (k', v')" by (cases a)
  show ?case
  proof (cases "k = k'")
    case True
    then show ?thesis using a by simp
  next
    case False
    then show ?thesis using a Cons.IH by (simp add: insert_commute)
  qed
qed

lemma distinct_map_set: "distinct (map fst m) \<Longrightarrow> distinct (map fst (map_set k v m))"
proof (induction m)
  case Nil
  then show ?case by simp
next
  case (Cons a m)
  obtain k' v' where a: "a = (k', v')" by (cases a)
  show ?case
  proof (cases "k = k'")
    case True
    then show ?thesis using Cons.prems a by simp
  next
    case False
    have "k' \<notin> fst ` set m" using Cons.prems a by simp
    then have "k' \<notin> fst ` set (map_set k v m)" using False by (simp add: keys_map_set)
    then show ?thesis using False a Cons by simp
  qed
qed

lemma set_map_set: "(k', v') \<in> set (map_set k v m) \<Longrightarrow> (k', v') = (k, v) \<or> (k', v') \<in> set m"
  by (induction m) (auto split: if_splits)

lemma keyed_map_set: "keyed m \<Longrightarrow> id_r v = k \<Longrightarrow> keyed (map_set k v m)"
  unfolding keyed_def list_all_iff using distinct_map_set set_map_set by fast

lemma keyed_addSemantic: "keyed m \<Longrightarrow> keyed (addSemantic m r)"
  by (simp add: addSemantic_def keyed_map_set)

lemma map_of_keyed_id: "keyed m \<Longrightarrow> map_of m k = Some v \<Longrightarrow> id_r v = k"
  unfolding keyed_def list_all_iff by (auto dest: map_of_SomeD)

lemma keyed_addKeyword: "keyed m \<Longrightarrow> keyed (addKeyword m r)"
  by (auto simp: addKeyword_def keyed_map_set map_of_keyed_id split: option.splits)

lemma keyed_foldl_addSemantic: "keyed m \<Longrightarrow> keyed (foldl addSemantic m rs)"
  by (induction rs arbitrary: m) (simp_all add: keyed_addSemantic)

lemma keyed_foldl_addKeyword: "keyed m \<Longrightarrow> keyed (foldl addKeyword m rs)"
  by (induction rs arbitrary: m) (simp_all add: keyed_addKeyword)

lemma keyed_combine: "keyed (combine sem kw)"
  unfolding combine_def
  by (intro keyed_foldl_addKeyword keyed_foldl_addSemantic) (simp add: keyed_def)

lemma map_of_addSemantic:
  "map_of (addSemantic m r) k = (if k = id_r r then Some (r\<lparr>finalScore := Some (score r * 0.7)\<rparr>) else map_of m k)"
  by (simp add: addSemantic_def map_of_map_set)

lemma map_of_foldl_addSemantic_other:
  "k \<notin> id_r ` set rs \<Longrightarrow> map_of (foldl addSemantic m rs) k = map_of m k"
  by (induction rs arbitrary: m) (simp_all add: map_of_addSemantic)

lemma map_of_foldl_addSemantic:
  "distinct (map id_r rs) \<Longrightarrow> x \<in> set rs \<Longrightarrow>
   map_of (foldl addSemantic m rs) (id_r x) = Some (x\<lparr>finalScore := Some (score x * 0.7)\<rparr>)"
proof (induction rs arbitrary: m)
  case Nil
  then show ?case by simp
next
  case (Cons r rs)
  show ?case
  proof (cases "x = r")
    case True
    then have "id_r x \<notin> id_r ` set rs" using Cons.prems by auto
    then show ?thesis using True by (simp add: map_of_foldl_addSemantic_other map_of_addSemantic)
  next
    case False
    then show ?thesis using Cons by auto
  qed
qed

lemma map_of_addKeyword:
  "map_of (addKeyword m r) k =
     (if k = id_r r
      then Some (case map_of m k of Some existing \<Rightarrow> merged existing r
                 | None \<Rightarrow> r\<lparr>finalScore := Some (score r * 0.3)\<rparr>)
      else map_of m k)"
  by (simp add: addKeyword_def map_of_map_set merged_def split: option.splits)

lemma map_of_foldl_addKeyword_other:
  "k \<notin> id_r ` set rs \<Longrightarrow> map_of (foldl addKeyword m rs) k = map_of m k"
  by (induction rs arbitrary: m) (simp_all add: map_of_addKeyword)

lemma map_of_foldl_addKeyword:
  "distinct (map id_r rs) \<Longrightarrow> y \<in> set rs \<Longrightarrow>
   map_of (foldl addKeyword m rs) (id_r y) =
     Some (case map_of m (id_r y) of Some existing \<Rightarrow> merged existing y
           | None \<Rightarrow> y\<lparr>finalScore := Some (score y * 0.3)\<rparr>)"
proof (induction rs arbitrary: m)
  case Nil
  then show ?case by simp
next
  case (Cons r rs)
  show ?case
  proof (cases "y = r")
    case True
    then have "id_r y \<notin> id_r ` set rs" using Cons.prems by auto
    then show ?thesis
      unfolding True by (simp add: map_of_foldl_addKeyword_other map_of_addKeyword)
  next
    case False
    then have y: "y \<in> set rs" "id_r y \<noteq> id_r r" using Cons.prems by (force simp: image_iff)+
    have "map_of (foldl addKeyword (addKeyword m r) rs) (id_r y) =
      Some (case map_of (addKeyword m r) (id_r y) of Some existing \<Rightarrow> merged existing y
           | None \<Rightarrow> y\<lparr>finalScore := Some (score y * 0.3)\<rparr>)"
      using Cons.IH[of "addKeyword m r"] Cons.prems y by simp
    then show ?thesis using y by (simp add: map_of_addKeyword)
  qed
qed

lemma filter_distinct_key:
  "distinct (map f xs) \<Longrightarrow> x \<in> set xs \<Longrightarrow> filter (\<lambda>r. f r = f x) xs = [x]"
proof (induction xs)
  case Nil
  then show ?case by simp
next
  case (Cons a xs)
  show ?case
  proof (cases "a = x")
    case True
    then have "\<forall>r \<in> set xs. f r \<noteq> f x" using Cons.prems by (force simp: image_iff)
    then have "filter (\<lambda>r. f r = f x) xs = []" by (simp add: filter_empty_conv)
    then show ?thesis using True by simp
  next
    case False
    then show ?thesis using Cons by auto
  qed
qed

subsection \<open>The ids of the two strategies\<close>

lemma show_nat_small: "n < 10 \<Longrightarrow> show_nat n = [char_of (48 + n)]"
  by (subst show_nat.simps) simp

lemma show_nat_large:
  "\<not> n < 10 \<Longrightarrow> show_nat n = show_nat (n div 10) @ [char_of (48 + n mod 10)]"
  by (subst show_nat.simps) simp

lemma show_nat_nonempty: "show_nat n \<noteq> []"
  by (cases "n < 10") (simp_all add: show_nat_small show_nat_large)

lemma digit_inj:
  assumes "a < 10" "b < 10" "(char_of (48 + a) :: char) = char_of (48 + b)"
  shows "a = (b::nat)"
proof -
  have "of_char (char_of (48 + a) :: char) = (of_char (char_of (48 + b) :: char) :: nat)"
    using assms(3) by simp
  then have "(48 + a) mod 256 = (48 + b) mod 256"
    by (simp only: of_char_of)
  then show ?thesis using assms(1,2) by simp
qed

lemma show_nat_inj: "show_nat n = show_nat m \<Longrightarrow> n = m"
proof (induction n arbitrary: m rule: show_nat.induct)
  case (1 n)
  show ?case
  proof (cases "n < 10")
    case True
    show ?thesis
    proof (cases "m < 10")
      case mt: True
      then show ?thesis using "1.prems" True by (simp add: show_nat_small digit_inj)
    next
      case False
      then show ?thesis
        using "1.prems" True show_nat_nonempty[of "m div 10"]
        by (simp add: show_nat_small show_nat_large)
    qed
  next
    case False
    show ?thesis
    proof (cases "m < 10")
      case True
      then show ?thesis
        using "1.prems" False show_nat_nonempty[of "n div 10"]
        by (simp add: show_nat_small show_nat_large)
    next
      case mf: False
      have eq: "show_nat (n div 10) = show_nat (m div 10)"
        "(char_of (48 + n mod 10) :: char) = char_of (48 + m mod 10)"
        using "1.prems" False mf by (simp_all add: show_nat_large)
      have "n div 10 = m div 10" using "1.IH"[OF False eq(1)] .
      moreover have "n mod 10 = m mod 10"
        using eq(2) by (intro digit_inj) simp_all
      ultimately show ?thesis by (metis div_mult_mod_eq)
    qed
  qed
qed

lemma distinct_semantic_ids: "distinct (map (\<lambda>i. ''semantic_'' @ show_nat i) [0..<n])"
  by (auto simp: distinct_map inj_on_def dest: show_nat_inj)

lemma mapE_Inr: "mapE f xs = Inr ys \<Longrightarrow> list_all2 (\<lambda>x y. f x = Inr y) xs ys"
proof (induction xs arbitrary: ys)
  case Nil
  then show ?case by simp
next
  case (Cons x xs)
  then show ?case by (auto simp: bindE_def split: sum.splits)
qed

lemma semanticSearch_ids:
  assumes "semanticSearch e options = Inr sem"
  shows "map id_r sem = map (\<lambda>i. ''semantic_'' @ show_nat i) [0..<length sem]"
proof -
  obtain embedQuery v where
    m: "mapE (\<lambda>(i, res). bindE (extractHighlights e (fst res) (query options))
             (\<lambda>hl. Inr (semanticResult (query options) i res hl)))
          (enumerate 0 (searchSimilar e v (maxResults options * 2))) = Inr sem"
    using assms by (auto simp: semanticSearch_def bindE_def Let_def split: option.splits sum.splits)
  let ?rag = "searchSimilar e v (maxResults options * 2)"
  have l2: "list_all2 (\<lambda>x y. (case x of (i, res) \<Rightarrow> bindE (extractHighlights e (fst res) (query options))
             (\<lambda>hl. Inr (semanticResult (query options) i res hl))) = Inr y) (enumerate 0 ?rag) sem"
    using mapE_Inr[OF m] .
  then have len: "length sem = length ?rag"
    by (auto dest: list_all2_lengthD)
  have "id_r (sem ! i) = ''semantic_'' @ show_nat i" if i_lt: "i < length sem" for i
  proof -
    have "(case enumerate 0 ?rag ! i of (i, res) \<Rightarrow> bindE (extractHighlights e (fst res) (query options))
             (\<lambda>hl. Inr (semanticResult (query options) i res hl))) = Inr (sem ! i)"
      using l2 i_lt len by (simp add: list_all2_conv_all_nth)
    then have b: "bindE (extractHighlights e (fst (?rag ! i)) (query options))
             (\<lambda>hl. Inr (semanticResult (query options) i (?rag ! i) hl)) = Inr (sem ! i)"
      using i_lt len by (simp add: nth_enumerate_eq)
    obtain hl where "sem ! i = semanticResult (query options) i (?rag ! i) hl"
    proof (cases "extractHighlights e (fst (?rag ! i)) (query options)")
      case (Inl err)
      then show ?thesis using b by (simp add: bindE_def)
    next
      case (Inr hl)
      then have "sem ! i = semanticResult (query options) i (?rag ! i) hl"
        using b by (simp add: bindE_def)
      then show ?thesis by (rule that)
    qed
    then show ?thesis by (simp add: semanticResult_def)
  qed
  then show ?thesis
    by (intro nth_equalityI) simp_all
qed

lemma semanticSearch_ids_distinct:
  "semanticSearch e options = Inr sem \<Longrightarrow> distinct (map id_r sem)"
  using semanticSearch_ids[of e options sem] distinct_semantic_ids[of "length sem"] by simp

lemma keywordFile_result:
  "keywordFile e options qw f = Inr (Some r) \<Longrightarrow> id_r r = ''keyword_'' @ path f \<and> file_r r = Some f"
  by (auto simp: keywordFile_def bindE_def keywordResult_def split: sum.splits if_splits prod.splits)

lemma keywordLoop_ids:
  "map id_r (keywordLoop e options qw fs) =
     map (\<lambda>f. ''keyword_'' @ path f) (filter (fileMatches e options qw) fs)"
  by (induction fs) (auto simp: fileMatches_def keywordFile_result split: sum.splits option.splits)

lemma keywordSearch_ids:
  assumes "keywordSearch e options = Inr kw" and "getMarkdownFiles e = Inr files"
  shows "id_r ` set kw \<subseteq> (\<lambda>f. ''keyword_'' @ path f) ` set files"
    and "distinct (map path files) \<Longrightarrow> distinct (map id_r kw)"
proof -
  let ?loop = "keywordLoop e options (split_ws (toLowerCase e (query options))) files"
  have kw: "kw = js_sort (\<lambda>a b. score b - score a) ?loop"
    using assms by (simp add: keywordSearch_def bindE_def Let_def)
  have ms: "mset (map id_r kw) = mset (map id_r ?loop)"
    unfolding kw using mset_js_sort[of "\<lambda>a b. score b - score a" ?loop] by (metis mset_map)
  have "set (map id_r kw) = set (map id_r ?loop)"
    using ms by (rule mset_eq_setD)
  then show "id_r ` set kw \<subseteq> (\<lambda>f. ''keyword_'' @ path f) ` set files"
    by (auto simp: keywordLoop_ids)
  assume d: "distinct (map path files)"
  have "distinct (map (\<lambda>f. ''keyword_'' @ path f) (filter (fileMatches e options (split_ws (toLowerCase e (query options)))) files))"
    using d by (auto simp: distinct_map inj_on_def dest: distinct_filter)
  then have "distinct (map id_r ?loop)" by (simp add: keywordLoop_ids)
  then show "distinct (map id_r kw)"
    using ms by (metis mset_eq_imp_distinct_iff)
qed

lemma keys_foldl_addSemantic:
  "fst ` set (foldl addSemantic m sem) = fst ` set m \<union> id_r ` set sem"
  by (induction sem arbitrary: m) (auto simp: addSemantic_def keys_map_set)

lemma values_foldl_addSemantic:
  "v \<in> snd ` set (foldl addSemantic m sem) \<Longrightarrow> v \<in> snd ` set m \<or> (\<exists>x \<in> set sem. v = semW x)"
proof (induction sem arbitrary: m)
  case Nil
  then show ?case by simp
next
  case (Cons r sem)
  then have "v \<in> snd ` set (addSemantic m r) \<or> (\<exists>x \<in> set sem. v = semW x)" by simp
  moreover have "v \<in> snd ` set (addSemantic m r) \<Longrightarrow> v \<in> snd ` set m \<or> v = semW r"
    unfolding addSemantic_def semW_def using set_map_set by fastforce
  ultimately show ?case by auto
qed

lemma foldl_addKeyword_fresh:
  "distinct (map id_r kw) \<Longrightarrow> id_r ` set kw \<inter> fst ` set m = {} \<Longrightarrow>
   foldl addKeyword m kw = m @ map (\<lambda>r. (id_r r, kwW r)) kw"
proof (induction kw arbitrary: m)
  case Nil
  then show ?case by simp
next
  case (Cons r kw)
  have fresh: "id_r r \<notin> fst ` set m" using Cons.prems by auto
  then have "map_of m (id_r r) = None" by (simp add: map_of_eq_None_iff)
  then have step: "addKeyword m r = m @ [(id_r r, kwW r)]"
    using fresh by (simp add: addKeyword_def map_set_fresh kwW_def)
  have "id_r ` set kw \<inter> fst ` set (m @ [(id_r r, kwW r)]) = {}"
    using Cons.prems by auto
  then show ?case using Cons.IH[of "m @ [(id_r r, kwW r)]"] Cons.prems step by simp
qed

lemma foldl_addSemantic_fresh:
  "distinct (map id_r sem) \<Longrightarrow> id_r ` set sem \<inter> fst ` set m = {} \<Longrightarrow>
   foldl addSemantic m sem = m @ map (\<lambda>r. (id_r r, semW r)) sem"
proof (induction sem arbitrary: m)
  case Nil
  then show ?case by simp
next
  case (Cons r sem)
  have fresh: "id_r r \<notin> fst ` set m" using Cons.prems by auto
  then have step: "addSemantic m r = m @ [(id_r r, semW r)]"
    by (simp add: addSemantic_def map_set_fresh semW_def)
  have "id_r ` set sem \<inter> fst ` set (m @ [(id_r r, semW r)]) = {}"
    using Cons.prems by auto
  then show ?case using Cons.IH[of "m @ [(id_r r, semW r)]"] Cons.prems step by simp
qed

lemma semantic_keyword_ids_differ: "''semantic_'' @ a \<noteq> ''keyword_'' @ b"
  by simp

subsection \<open>Looking up the combined results\<close>

lemma effScore_semW: "effScore (r\<lparr>finalScore := Some (score r * 0.7)\<rparr>) = score r * 0.7"
  by (simp add: effScore_def)

lemma effScore_kwW: "effScore (r\<lparr>finalScore := Some (score r * 0.3)\<rparr>) = score r * 0.3"
  by (simp add: effScore_def)

lemma combine_lookup_out:
  assumes "map_of (combine sem kw) k = Some v"
  shows "filter (\<lambda>r. id_r r = k) (js_sort byScore (map snd (combine sem kw))) = [v]"
proof -
  let ?m = "combine sem kw"
  let ?out = "js_sort byScore (map snd ?m)"
  have k: "keyed ?m" by (rule keyed_combine)
  then have eq: "map id_r (map snd ?m) = map fst ?m"
    unfolding keyed_def list_all_iff by auto
  have "distinct (map fst ?m)" using k by (simp add: keyed_def)
  then have "distinct (map id_r (map snd ?m))" by (simp only: eq)
  moreover have "mset (map id_r ?out) = mset (map id_r (map snd ?m))"
    using mset_js_sort[of byScore "map snd ?m"] by (metis mset_map)
  ultimately have d: "distinct (map id_r ?out)" by (metis mset_eq_imp_distinct_iff)
  have "(k, v) \<in> set ?m" using assms by (rule map_of_SomeD)
  then have "v \<in> set (map snd ?m)" by force
  then have v: "v \<in> set ?out" by (simp add: set_js_sort)
  have "id_r v = k" using k assms by (rule map_of_keyed_id)
  then show ?thesis using filter_distinct_key[OF d v] by simp
qed

lemma combine_semantic_only:
  assumes "distinct (map id_r sem)" "x \<in> set sem" "id_r x \<notin> id_r ` set kw"
  shows "map_of (combine sem kw) (id_r x) = Some (x\<lparr>finalScore := Some (score x * 0.7)\<rparr>)"
  using assms by (simp add: combine_def map_of_foldl_addKeyword_other map_of_foldl_addSemantic)

lemma combine_keyword_only:
  assumes "distinct (map id_r kw)" "y \<in> set kw" "id_r y \<notin> id_r ` set sem"
  shows "map_of (combine sem kw) (id_r y) = Some (y\<lparr>finalScore := Some (score y * 0.3)\<rparr>)"
  using assms by (simp add: combine_def map_of_foldl_addKeyword map_of_foldl_addSemantic_other)

lemma combine_both:
  assumes "distinct (map id_r sem)" "distinct (map id_r kw)" "x \<in> set sem" "y \<in> set kw"
    "id_r x = id_r y"
  shows "\<exists>r. map_of (combine sem kw) (id_r x) = Some r \<and>
             finalScore r = Some (score x * 0.7 + score y * 0.3)"
proof -
  have "map_of (foldl addSemantic [] sem) (id_r y) = Some (x\<lparr>finalScore := Some (score x * 0.7)\<rparr>)"
    using assms map_of_foldl_addSemantic[of sem x "[]"] by simp
  then have "map_of (combine sem kw) (id_r y) =
      Some (merged (x\<lparr>finalScore := Some (score x * 0.7)\<rparr>) y)"
    using assms by (simp add: combine_def map_of_foldl_addKeyword)
  then show ?thesis using assms by (simp add: merged_def effScore_def)
qed

lemma combine_disjoint:
  assumes "distinct (map id_r kw)" "id_r ` set sem \<inter> id_r ` set kw = {}"
  shows "combine sem kw = foldl addSemantic [] sem @ map (\<lambda>r. (id_r r, kwW r)) kw"
  unfolding combine_def using assms
  by (intro foldl_addKeyword_fresh) (auto simp: keys_foldl_addSemantic)

lemma combine_disjoint_values:
  assumes "distinct (map id_r kw)" "id_r ` set sem \<inter> id_r ` set kw = {}"
    "r \<in> set (map snd (combine sem kw))"
  shows "(\<exists>x \<in> set sem. r = semW x) \<or> (\<exists>y \<in> set kw. r = kwW y)"
proof -
  have "r \<in> snd ` set (foldl addSemantic [] sem) \<or> r \<in> kwW ` set kw"
    using assms by (auto simp: combine_disjoint image_iff)
  then show ?thesis using values_foldl_addSemantic[of r "[]" sem] by auto
qed

lemma combine_concat:
  assumes "distinct (map id_r sem)" "distinct (map id_r kw)"
    "id_r ` set sem \<inter> id_r ` set kw = {}"
  shows "combine sem kw =
     map (\<lambda>r. (id_r r, r\<lparr>finalScore := Some (score r * 0.7)\<rparr>)) sem @
     map (\<lambda>r. (id_r r, r\<lparr>finalScore := Some (score r * 0.3)\<rparr>)) kw"
  using combine_disjoint[OF assms(2,3)] foldl_addSemantic_fresh[OF assms(1), of "[]"]
  by (simp add: semW_def[abs_def] kwW_def[abs_def])

lemma sorted_wrt_map_eq:
  "sorted_wrt (\<lambda>a b. f b \<le> f a) xs \<Longrightarrow> sorted_wrt (\<lambda>a b. b \<le> a) (map f xs)"
  by (simp add: sorted_wrt_map)

subsection \<open>The hybrid strategy\<close>

lemma sample_semantic: "semanticSearch sample_env sample_options = Inr [nodeA]"
  by code_simp

lemma sample_keyword: "keywordSearch sample_env sample_options = Inr [docB]"
  by code_simp

lemma sample_hybrid:
  "hybridSearch sample_env sample_options =
     Inr [nodeA\<lparr>finalScore := Some 0.63\<rparr>, docB\<lparr>finalScore := Some 0.3\<rparr>]"
  by code_simp

lemma hybridSearch_form:
  assumes "getMarkdownFiles e = Inr files" "distinct (map path files)"
    "hybridSearch e options = Inr out"
  obtains sem kw where "keywordSearch e options = Inr kw"
    "sem = (case semanticSearch e options of Inl err \<Rightarrow> [] | Inr rs \<Rightarrow> rs)"
    "map id_r sem = map (\<lambda>i. ''semantic_'' @ show_nat i) [0..<length sem]"
    "id_r ` set kw \<subseteq> (\<lambda>f. ''keyword_'' @ path f) ` set files"
    "distinct (map id_r kw)" "id_r ` set sem \<inter> id_r ` set kw = {}"
    "out = js_sort byScore (map snd (combine sem kw))" "distinct (map id_r sem)"
proof -
  define sem where "sem = (case semanticSearch e options of Inl err \<Rightarrow> [] | Inr rs \<Rightarrow> rs)"
  obtain kw where kw: "keywordSearch e options = Inr kw"
    and out: "out = js_sort byScore (map snd (combine sem kw))"
    using assms(3) unfolding hybridSearch_def sem_def
    by (cases "keywordSearch e options") (auto simp: bindE_def Let_def)
  have ids: "map id_r sem = map (\<lambda>i. ''semantic_'' @ show_nat i) [0..<length sem]"
  proof (cases "semanticSearch e options")
    case (Inl err)
    then show ?thesis by (simp add: sem_def)
  next
    case (Inr rs)
    then show ?thesis using semanticSearch_ids[OF Inr] by (simp add: sem_def)
  qed
  have kids: "id_r ` set kw \<subseteq> (\<lambda>f. ''keyword_'' @ path f) ` set files"
    and d: "distinct (map id_r kw)"
    using keywordSearch_ids[OF kw assms(1)] assms(2) by auto
  have "set (map id_r sem) \<subseteq> (\<lambda>i. ''semantic_'' @ show_nat i) ` UNIV"
    unfolding ids by auto
  then have "id_r ` set sem \<inter> id_r ` set kw = {}"
    using kids by fastforce
  moreover have "distinct (map id_r sem)"
    unfolding ids by (rule distinct_semantic_ids)
  ultimately show ?thesis using that kw sem_def ids kids d out by blast
qed

text \<open>
  C1: in the list returned by the hybrid strategy, the result for an id that only the
  semantic results have is that result with final score 0.7 times its score, the result for
  an id that only the keyword results have is that result with final score 0.3 times its
  score, and the result for an id that both have has final score 0.7 times the semantic
  score plus 0.3 times the keyword score. The list is sorted descending by the sort key
  \<^verbatim>\<open>finalScore || score\<close>, it is what \<^verbatim>\<open>hybridSearch\<close> returns, and on a vault whose
  paths are distinct every result has a final score and the list is sorted descending by
  it. The instance of the claim (similarity 0.9, keyword score 1) follows the theorem.
\<close>

theorem hybrid_weighting:
  "(distinct (map id_r sem) \<and> x \<in> set sem \<and> id_r x \<notin> id_r ` set kw \<longrightarrow>
      filter (\<lambda>r. id_r r = id_r x) (js_sort byScore (map snd (combine sem kw))) =
        [x\<lparr>finalScore := Some (score x * 0.7)\<rparr>]) \<and>
   (distinct (map id_r kw) \<and> y \<in> set kw \<and> id_r y \<notin> id_r ` set sem \<longrightarrow>
      filter (\<lambda>r. id_r r = id_r y) (js_sort byScore (map snd (combine sem kw))) =
        [y\<lparr>finalScore := Some (score y * 0.3)\<rparr>]) \<and>
   (distinct (map id_r sem) \<and> distinct (map id_r kw) \<and> x \<in> set sem \<and> y \<in> set kw \<and>
    id_r x = id_r y \<longrightarrow>
      (\<exists>r. filter (\<lambda>r. id_r r = id_r x) (js_sort byScore (map snd (combine sem kw))) = [r] \<and>
           finalScore r = Some (score x * 0.7 + score y * 0.3))) \<and>
   sorted_wrt (\<lambda>a b. effScore b \<le> effScore a) (js_sort byScore (map snd (combine sem kw))) \<and>
   (keywordSearch e options = Inr kw \<and>
    sem = (case semanticSearch e options of Inl err \<Rightarrow> [] | Inr rs \<Rightarrow> rs) \<longrightarrow>
      hybridSearch e options = Inr (js_sort byScore (map snd (combine sem kw)))) \<and>
   (getMarkdownFiles e = Inr files \<and> distinct (map path files) \<and>
    hybridSearch e options = Inr out \<longrightarrow>
      (\<exists>fs. map finalScore out = map Some fs \<and> sorted_wrt (\<lambda>a b. b \<le> a) fs))"
proof (intro conjI impI)
  assume "distinct (map id_r sem) \<and> x \<in> set sem \<and> id_r x \<notin> id_r ` set kw"
  then show "filter (\<lambda>r. id_r r = id_r x) (js_sort byScore (map snd (combine sem kw))) =
        [x\<lparr>finalScore := Some (score x * 0.7)\<rparr>]"
    by (intro combine_lookup_out combine_semantic_only) simp_all
next
  assume "distinct (map id_r kw) \<and> y \<in> set kw \<and> id_r y \<notin> id_r ` set sem"
  then show "filter (\<lambda>r. id_r r = id_r y) (js_sort byScore (map snd (combine sem kw))) =
        [y\<lparr>finalScore := Some (score y * 0.3)\<rparr>]"
    by (intro combine_lookup_out combine_keyword_only) simp_all
next
  assume h: "distinct (map id_r sem) \<and> distinct (map id_r kw) \<and> x \<in> set sem \<and> y \<in> set kw \<and>
    id_r x = id_r y"
  then obtain r where r: "map_of (combine sem kw) (id_r x) = Some r"
    "finalScore r = Some (score x * 0.7 + score y * 0.3)"
    using combine_both[of sem kw x y] by auto
  show "\<exists>r. filter (\<lambda>r. id_r r = id_r x) (js_sort byScore (map snd (combine sem kw))) = [r] \<and>
           finalScore r = Some (score x * 0.7 + score y * 0.3)"
    using combine_lookup_out[OF r(1)] r(2) by blast
next
  show "sorted_wrt (\<lambda>a b. effScore b \<le> effScore a) (js_sort byScore (map snd (combine sem kw)))"
    by (rule sorted_js_sort[where cmp = byScore and k = effScore]) (rule byScore_key)
next
  assume "keywordSearch e options = Inr kw \<and>
    sem = (case semanticSearch e options of Inl err \<Rightarrow> [] | Inr rs \<Rightarrow> rs)"
  then show "hybridSearch e options = Inr (js_sort byScore (map snd (combine sem kw)))"
    by (simp add: hybridSearch_def bindE_def)
next
  assume h: "getMarkdownFiles e = Inr files \<and> distinct (map path files) \<and>
    hybridSearch e options = Inr out"
  then obtain sem' kw' where d: "distinct (map id_r kw')" "id_r ` set sem' \<inter> id_r ` set kw' = {}"
    and out: "out = js_sort byScore (map snd (combine sem' kw'))"
    using hybridSearch_form[of e files options out] by metis
  have fin: "finalScore r = Some (effScore r)" if "r \<in> set out" for r
  proof -
    have "r \<in> set (map snd (combine sem' kw'))" using that out by (simp add: set_js_sort)
    then have "(\<exists>x \<in> set sem'. r = semW x) \<or> (\<exists>y \<in> set kw'. r = kwW y)"
      using combine_disjoint_values[OF d] by blast
    then show ?thesis by (auto simp: semW_def kwW_def effScore_def)
  qed
  have "sorted_wrt (\<lambda>a b. effScore b \<le> effScore a) out"
    unfolding out by (rule sorted_js_sort[where cmp = byScore and k = effScore]) (rule byScore_key)
  then have "sorted_wrt (\<lambda>a b. b \<le> a) (map effScore out)"
    by (rule sorted_wrt_map_eq)
  moreover have "map finalScore out = map Some (map effScore out)"
    using fin by simp
  ultimately show "\<exists>fs. map finalScore out = map Some fs \<and> sorted_wrt (\<lambda>a b. b \<le> a) fs"
    by blast
qed

theorem hybrid_weighting_witness:
  "hybridSearch sample_env sample_options =
     Inr [nodeA\<lparr>finalScore := Some 0.63\<rparr>, docB\<lparr>finalScore := Some 0.3\<rparr>] \<and>
   score nodeA = 0.9 \<and> score docB = 1 \<and>
   filter (\<lambda>r. id_r r = id_r nodeA) (js_sort byScore (map snd (combine [nodeA] [docB]))) =
     [nodeA\<lparr>finalScore := Some 0.63\<rparr>] \<and>
   filter (\<lambda>r. id_r r = id_r docB) (js_sort byScore (map snd (combine [nodeA] [docB]))) =
     [docB\<lparr>finalScore := Some 0.3\<rparr>] \<and>
   (\<exists>r. filter (\<lambda>r. id_r r = id_r nodeA)
          (js_sort byScore (map snd (combine [nodeA] [nodeA\<lparr>score := 1\<rparr>]))) = [r] \<and>
        finalScore r = Some 0.93) \<and>
   map finalScore [nodeA\<lparr>finalScore := Some 0.63\<rparr>, docB\<lparr>finalScore := Some 0.3\<rparr>] =
     map Some [0.63, 0.3]"
proof -
  have sc: "score nodeA = 0.9" "score docB = 1"
    by (simp_all add: nodeA_def semanticResult_def docB_def keywordResult_def)
  have ids: "id_r nodeA = ''semantic_0''" "id_r docB = ''keyword_notes/b.md''"
    by code_simp+
  have files: "getMarkdownFiles sample_env = Inr [fileB]" by (simp add: sample_env_def)
  note t1 = hybrid_weighting[of "[nodeA]" nodeA "[docB]" docB sample_env sample_options "[fileB]"
      "[nodeA\<lparr>finalScore := Some 0.63\<rparr>, docB\<lparr>finalScore := Some 0.3\<rparr>]"]
  note t2 = hybrid_weighting[of "[nodeA]" nodeA "[nodeA\<lparr>score := 1\<rparr>]" "nodeA\<lparr>score := 1\<rparr>"
      sample_env sample_options "[fileB]" "[]"]
  have a: "filter (\<lambda>r. id_r r = id_r nodeA) (js_sort byScore (map snd (combine [nodeA] [docB]))) =
     [nodeA\<lparr>finalScore := Some 0.63\<rparr>]"
    and b: "filter (\<lambda>r. id_r r = id_r docB) (js_sort byScore (map snd (combine [nodeA] [docB]))) =
     [docB\<lparr>finalScore := Some 0.3\<rparr>]"
    using t1 sc ids by simp_all
  have c: "\<exists>r. filter (\<lambda>r. id_r r = id_r nodeA)
          (js_sort byScore (map snd (combine [nodeA] [nodeA\<lparr>score := 1\<rparr>]))) = [r] \<and>
        finalScore r = Some 0.93"
    using t2 sc by simp
  show ?thesis using a b c sc sample_hybrid by simp
qed

lemma nth_notin_take: "distinct xs \<Longrightarrow> i < length xs \<Longrightarrow> xs ! i \<notin> set (take i xs)"
  by (auto simp: in_set_conv_nth nth_eq_iff_index_eq)

lemma keyword_branch_fresh:
  assumes d: "distinct (map id_r kw)" and dj: "id_r ` set sem \<inter> id_r ` set kw = {}"
    and i: "i < length kw"
  shows "map_of (foldl addKeyword (foldl addSemantic [] sem) (take i kw)) (id_r (kw ! i)) = None"
proof -
  let ?m = "foldl addSemantic [] sem"
  have dt: "distinct (map id_r (take i kw))" using d by (simp add: take_map[symmetric])
  have sub: "set (take i kw) \<subseteq> set kw" by (rule set_take_subset)
  have djt: "id_r ` set (take i kw) \<inter> fst ` set ?m = {}"
    using dj sub by (auto simp: keys_foldl_addSemantic)
  have eq: "foldl addKeyword ?m (take i kw) = ?m @ map (\<lambda>r. (id_r r, kwW r)) (take i kw)"
    using dt djt by (rule foldl_addKeyword_fresh)
  have "map id_r kw ! i \<notin> set (take i (map id_r kw))"
    using d i by (intro nth_notin_take) simp_all
  then have a: "id_r (kw ! i) \<notin> id_r ` set (take i kw)"
    using i by (simp add: take_map)
  have "kw ! i \<in> set kw" using i by simp
  then have b: "id_r (kw ! i) \<notin> fst ` set ?m"
    using dj by (auto simp: keys_foldl_addSemantic)
  have "id_r (kw ! i) \<notin> fst ` set (foldl addKeyword ?m (take i kw))"
    unfolding eq using a b by (auto simp: image_iff)
  then show ?thesis by (simp add: map_of_eq_None_iff)
qed

text \<open>
  C10: the ids of the semantic results are \<^verbatim>\<open>semantic_\<close> followed by the position, the ids
  of the keyword results are \<^verbatim>\<open>keyword_\<close> followed by a path of the vault; so no id is in
  both lists, the ids of each list are distinct, the lookup that guards the combining
  branch finds nothing at every keyword result, the map of combined results is the list of
  the weighted semantic results followed by the weighted keyword results, every result of the hybrid search has final score 0.7 or 0.3 times its score,
  and the id of a semantic result depends on its position only: two calls give the same
  id to whatever they return at the same position.
\<close>

theorem hybrid_ids_disjoint:
  "getMarkdownFiles e = Inr files \<and> distinct (map path files) \<and>
   keywordSearch e options = Inr kw \<and>
   sem = (case semanticSearch e options of Inl err \<Rightarrow> [] | Inr rs \<Rightarrow> rs) \<longrightarrow>
     map id_r sem = map (\<lambda>i. ''semantic_'' @ show_nat i) [0..<length sem] \<and>
     (\<forall>r \<in> set kw. \<exists>f \<in> set files. id_r r = ''keyword_'' @ path f) \<and>
     id_r ` set sem \<inter> id_r ` set kw = {} \<and>
     distinct (map id_r sem) \<and> distinct (map id_r kw) \<and>
     (\<forall>i < length kw.
        map_of (foldl addKeyword (foldl addSemantic [] sem) (take i kw)) (id_r (kw ! i)) = None) \<and>
     combine sem kw =
       map (\<lambda>r. (id_r r, r\<lparr>finalScore := Some (score r * 0.7)\<rparr>)) sem @
       map (\<lambda>r. (id_r r, r\<lparr>finalScore := Some (score r * 0.3)\<rparr>)) kw \<and>
     (\<exists>out. hybridSearch e options = Inr out \<and>
        (\<forall>r \<in> set out. finalScore r = Some (score r * 0.7) \<or> finalScore r = Some (score r * 0.3))) \<and>
     (\<forall>e' options' sem'. semanticSearch e' options' = Inr sem' \<longrightarrow>
        (\<forall>i. i < length sem \<and> i < length sem' \<longrightarrow> id_r (sem ! i) = id_r (sem' ! i)))"
proof (intro impI)
  assume h: "getMarkdownFiles e = Inr files \<and> distinct (map path files) \<and>
   keywordSearch e options = Inr kw \<and>
   sem = (case semanticSearch e options of Inl err \<Rightarrow> [] | Inr rs \<Rightarrow> rs)"
  let ?out = "js_sort byScore (map snd (combine sem kw))"
  have hy: "hybridSearch e options = Inr ?out"
    using h by (simp add: hybridSearch_def bindE_def)
  obtain sem0 kw0 where f: "keywordSearch e options = Inr kw0"
    "sem0 = (case semanticSearch e options of Inl err \<Rightarrow> [] | Inr rs \<Rightarrow> rs)"
    "map id_r sem0 = map (\<lambda>i. ''semantic_'' @ show_nat i) [0..<length sem0]"
    "id_r ` set kw0 \<subseteq> (\<lambda>f. ''keyword_'' @ path f) ` set files"
    "distinct (map id_r kw0)" "id_r ` set sem0 \<inter> id_r ` set kw0 = {}"
    "distinct (map id_r sem0)"
    using hybridSearch_form[of e files options ?out] h hy by metis
  have eq: "kw0 = kw" "sem0 = sem" using f h by simp_all
  note g = f(3-7)[unfolded eq]
  note cc = combine_concat[OF g(5) g(3) g(4)]
  have ids: "map id_r sem = map (\<lambda>i. ''semantic_'' @ show_nat i) [0..<length sem]"
    by (rule g(1))
  have kids: "\<forall>r \<in> set kw. \<exists>f \<in> set files. id_r r = ''keyword_'' @ path f"
    using g(2) by auto
  have br: "\<forall>i < length kw.
        map_of (foldl addKeyword (foldl addSemantic [] sem) (take i kw)) (id_r (kw ! i)) = None"
    using keyword_branch_fresh[OF g(3) g(4)] by blast
  have fin: "finalScore r = Some (score r * 0.7) \<or> finalScore r = Some (score r * 0.3)"
    if "r \<in> set ?out" for r
  proof -
    have "r \<in> set (map snd (combine sem kw))" using that by (simp add: set_js_sort)
    then have "(\<exists>x \<in> set sem. r = semW x) \<or> (\<exists>y \<in> set kw. r = kwW y)"
      using combine_disjoint_values[OF g(3) g(4)] by blast
    then show ?thesis by (auto simp: semW_def kwW_def)
  qed
  have pos: "id_r (sem ! i) = id_r (sem' ! i)"
    if "semanticSearch e' options' = Inr sem'" "i < length sem \<and> i < length sem'"
    for e' options' sem' i
  proof -
    have "map id_r sem ! i = map id_r sem' ! i"
      unfolding ids semanticSearch_ids[OF that(1)] using that(2) by simp
    then show ?thesis using that(2) by simp
  qed
  show "map id_r sem = map (\<lambda>i. ''semantic_'' @ show_nat i) [0..<length sem] \<and>
     (\<forall>r \<in> set kw. \<exists>f \<in> set files. id_r r = ''keyword_'' @ path f) \<and>
     id_r ` set sem \<inter> id_r ` set kw = {} \<and>
     distinct (map id_r sem) \<and> distinct (map id_r kw) \<and>
     (\<forall>i < length kw.
        map_of (foldl addKeyword (foldl addSemantic [] sem) (take i kw)) (id_r (kw ! i)) = None) \<and>
     combine sem kw =
       map (\<lambda>r. (id_r r, r\<lparr>finalScore := Some (score r * 0.7)\<rparr>)) sem @
       map (\<lambda>r. (id_r r, r\<lparr>finalScore := Some (score r * 0.3)\<rparr>)) kw \<and>
     (\<exists>out. hybridSearch e options = Inr out \<and>
        (\<forall>r \<in> set out. finalScore r = Some (score r * 0.7) \<or> finalScore r = Some (score r * 0.3))) \<and>
     (\<forall>e' options' sem'. semanticSearch e' options' = Inr sem' \<longrightarrow>
        (\<forall>i. i < length sem \<and> i < length sem' \<longrightarrow> id_r (sem ! i) = id_r (sem' ! i)))"
    using ids kids g(4) g(5) g(3) br cc hy fin pos by blast
qed

lemma sample_semantic2:
  "map_sum id (map (\<lambda>r. (id_r r, content r))) (semanticSearch sample_env2 sample_options) =
     Inr [(''semantic_0'', ''other text''), (''semantic_1'', ''alpha text'')]"
  by code_simp

theorem hybrid_ids_disjoint_witness:
  "map id_r [nodeA] = [''semantic_0''] \<and> map id_r [docB] = [''keyword_notes/b.md''] \<and>
   id_r ` set [nodeA] \<inter> id_r ` set [docB] = {} \<and>
   map_of (foldl addKeyword (foldl addSemantic [] [nodeA]) (take 0 [docB])) (id_r ([docB] ! 0)) = None \<and>
   hybridSearch sample_env sample_options =
     Inr [nodeA\<lparr>finalScore := Some 0.63\<rparr>, docB\<lparr>finalScore := Some 0.3\<rparr>] \<and>
   content nodeA = ''alpha text'' \<and>
   map_sum id (map (\<lambda>r. (id_r r, content r))) (semanticSearch sample_env2 sample_options) =
     Inr [(''semantic_0'', ''other text''), (''semantic_1'', ''alpha text'')]"
proof -
  have files: "getMarkdownFiles sample_env = Inr [fileB]" "distinct (map path [fileB])"
    by (simp_all add: sample_env_def)
  have sem: "[nodeA] = (case semanticSearch sample_env sample_options of Inl err \<Rightarrow> [] | Inr rs \<Rightarrow> rs)"
    by (simp add: sample_semantic)
  note t = hybrid_ids_disjoint[of sample_env "[fileB]" sample_options "[docB]" "[nodeA]"]
  have c: "map id_r [nodeA] = map (\<lambda>i. ''semantic_'' @ show_nat i) [0..<length [nodeA]]"
    "id_r ` set [nodeA] \<inter> id_r ` set [docB] = {}"
    "\<forall>i < length [docB].
        map_of (foldl addKeyword (foldl addSemantic [] [nodeA]) (take i [docB])) (id_r ([docB] ! i)) = None"
    using t files sem sample_keyword by blast+
  have d: "map (\<lambda>i. ''semantic_'' @ show_nat i) [0..<length [nodeA]] = [''semantic_0'']"
    by code_simp
  have e: "map id_r [docB] = [''keyword_notes/b.md'']" "content nodeA = ''alpha text''"
    by code_simp+
  show ?thesis
    using c d e sample_hybrid sample_semantic2 by simp
qed

subsection \<open>Reranking\<close>







subsection \<open>Analytics\<close>

lemma map_of_countQuery:
  "map_of (countQuery m q) k =
     (if k = q then Some ((case map_of m q of None \<Rightarrow> 0 | Some c \<Rightarrow> c) + 1) else map_of m k)"
  by (simp add: countQuery_def map_of_map_set)

lemma distinct_countQuery: "distinct (map fst m) \<Longrightarrow> distinct (map fst (countQuery m q))"
  by (simp add: countQuery_def distinct_map_set)

lemma foldl_countQuery:
  "distinct (map fst m) \<Longrightarrow>
   distinct (map fst (foldl countQuery m qs)) \<and>
   (\<forall>k. map_of (foldl countQuery m qs) k =
      (case map_of m k of
         None \<Rightarrow> if k \<in> set qs then Some (count_list qs k) else None
       | Some c \<Rightarrow> Some (c + count_list qs k)))"
proof (induction qs arbitrary: m)
  case Nil
  then show ?case by (auto split: option.splits)
next
  case (Cons q qs)
  have d: "distinct (map fst (countQuery m q))" using Cons.prems by (rule distinct_countQuery)
  show ?case
    using Cons.IH[OF d] by (auto simp: map_of_countQuery split: option.splits)
qed

lemma queryCount_map_of:
  "map_of (foldl countQuery [] qs) k = (if k \<in> set qs then Some (count_list qs k) else None)"
  using foldl_countQuery[of "[]" qs] by simp

lemma queryCount_distinct: "distinct (map fst (foldl countQuery [] qs))"
  using foldl_countQuery[of "[]" qs] by simp

lemma queryCount_keys: "fst ` set (foldl countQuery [] qs) = set qs"
proof -
  have "k \<in> fst ` set (foldl countQuery [] qs) \<longleftrightarrow> k \<in> set qs" for k
    using queryCount_map_of[of qs k] map_of_eq_None_iff[of "foldl countQuery [] qs" k]
    by (cases "k \<in> set qs") auto
  then show ?thesis by blast
qed

lemma byCount_key:
  "((of_nat (snd b) :: rat) - of_nat (snd a) \<le> 0) = (snd b \<le> snd (a :: string \<times> nat))"
  by simp


text \<open>
  C9, as stated, fails for the usage breakdown: after one hybrid search the analytics
  count one search in total and zero hybrid searches.
\<close>

theorem analytics_breakdown_counterexample:
  "searchType sample_options = Hybrid \<and>
   totalSearches (getSearchAnalytics (snd (search sample_env clock0 sample_options init_state))) = 1 \<and>
   map_of (searchTypes (getSearchAnalytics (snd (search sample_env clock0 sample_options init_state))))
     ''hybrid'' = Some 0"
  by code_simp

text \<open>
  C9, amended: \<^verbatim>\<open>getSearchAnalytics\<close> returns the number of history entries, the average
  of their result counts (0 for an empty history), and the top queries: at most ten
  distinct queries of the history, each with the number of its occurrences, in descending
  order of that number, no query left out occurring more often than one that is listed.
  The four entries of \<^verbatim>\<open>searchTypes\<close> are 0 for every history.
\<close>

theorem analytics_values:
  "totalSearches (getSearchAnalytics s) = length (getSearchHistory s) \<and>
   averageResults (getSearchAnalytics s) =
     (if getSearchHistory s = [] then 0
      else of_nat (sum_list (map h_resultCount (getSearchHistory s))) /
           of_nat (length (getSearchHistory s))) \<and>
   length (topQueries (getSearchAnalytics s)) =
     min 10 (card (set (map h_query (getSearchHistory s)))) \<and>
   distinct (map fst (topQueries (getSearchAnalytics s))) \<and>
   (\<forall>(q, c) \<in> set (topQueries (getSearchAnalytics s)).
      q \<in> set (map h_query (getSearchHistory s)) \<and>
      c = count_list (map h_query (getSearchHistory s)) q) \<and>
   sorted_wrt (\<lambda>a b. snd b \<le> snd a) (topQueries (getSearchAnalytics s)) \<and>
   (\<forall>q \<in> set (map h_query (getSearchHistory s)).
      q \<notin> fst ` set (topQueries (getSearchAnalytics s)) \<longrightarrow>
      (\<forall>(q', c') \<in> set (topQueries (getSearchAnalytics s)).
         count_list (map h_query (getSearchHistory s)) q \<le> c')) \<and>
   searchTypes (getSearchAnalytics s) =
     [(''semantic'', 0), (''keyword'', 0), (''hybrid'', 0), (''ai_enhanced'', 0)]"
proof -
  let ?qs = "map h_query (searchHistory s)"
  let ?m = "foldl countQuery [] ?qs"
  let ?cmp = "\<lambda>a b. (of_nat (snd b) :: rat) - of_nat (snd (a :: string \<times> nat))"
  let ?srt = "js_sort ?cmp ?m"
  let ?top = "take 10 ?srt"
  have top: "topQueries (getSearchAnalytics s) = ?top"
    by (simp add: getSearchAnalytics_def Let_def)
  have srt: "sorted_wrt (\<lambda>a b. snd b \<le> snd a) ?srt"
    by (rule sorted_js_sort[where cmp = ?cmp and k = snd]) simp
  have ms: "mset ?srt = mset ?m" by (rule mset_js_sort)
  have st: "set ?srt = set ?m" by (rule set_js_sort)
  have dm: "distinct (map fst ?m)" by (rule queryCount_distinct)
  have "mset (map fst ?srt) = mset (map fst ?m)" using ms by (metis mset_map)
  then have ds: "distinct (map fst ?srt)" using dm by (metis mset_eq_imp_distinct_iff)
  have lenm: "length ?m = card (set ?qs)"
  proof -
    have "length ?m = length (map fst ?m)" by simp
    also have "\<dots> = card (set (map fst ?m))" using dm by (simp only: distinct_card)
    also have "\<dots> = card (set ?qs)" by (simp add: queryCount_keys)
    finally show ?thesis .
  qed
  have len: "length ?top = min 10 (card (set ?qs))"
    using lenm by (simp add: length_js_sort min.commute)
  have dt: "distinct (map fst ?top)"
    using ds by (simp add: take_map[symmetric])
  have cnt: "q \<in> set ?qs \<and> c = count_list ?qs q" if "(q, c) \<in> set ?m" for q c
  proof -
    have "map_of ?m q = Some c" using dm that by (rule map_of_is_SomeI)
    then show ?thesis by (simp add: queryCount_map_of split: if_splits)
  qed
  have intop: "\<forall>(q, c) \<in> set ?top. q \<in> set ?qs \<and> c = count_list ?qs q"
  proof -
    have "set ?top \<subseteq> set ?m" using st set_take_subset[of 10 ?srt] by simp
    then show ?thesis using cnt by blast
  qed
  have srtt: "sorted_wrt (\<lambda>a b. snd b \<le> snd a) ?top"
    using srt by (rule sorted_wrt_take)
  have rest: "\<forall>(q', c') \<in> set ?top. count_list ?qs q \<le> c'"
    if q: "q \<in> set ?qs" "q \<notin> fst ` set ?top" for q
  proof -
    have "map_of ?m q = Some (count_list ?qs q)" using q(1) by (simp add: queryCount_map_of)
    then have "(q, count_list ?qs q) \<in> set ?srt" using st by (auto dest: map_of_SomeD)
    then have "(q, count_list ?qs q) \<in> set (take 10 ?srt) \<union> set (drop 10 ?srt)"
      by (metis append_take_drop_id set_append)
    then have d: "(q, count_list ?qs q) \<in> set (drop 10 ?srt)"
      using q(2) by force
    have "sorted_wrt (\<lambda>a b. snd b \<le> snd a) (take 10 ?srt @ drop 10 ?srt)"
      using srt by simp
    then have "\<forall>x \<in> set (take 10 ?srt). \<forall>y \<in> set (drop 10 ?srt). snd y \<le> snd x"
      by (simp only: sorted_wrt_append) blast
    then show ?thesis using d by fastforce
  qed
  have avg: "averageResults (getSearchAnalytics s) =
     (if searchHistory s = [] then 0
      else of_nat (sum_list (map h_resultCount (searchHistory s))) /
           of_nat (length (searchHistory s)))"
    by (simp add: getSearchAnalytics_def Let_def)
  show ?thesis
    unfolding top getSearchHistory_def
    using len dt intop srtt rest avg
    by (simp add: getSearchAnalytics_def Let_def)
qed


lemma history_state_top:
  "topQueries (getSearchAnalytics history_state) = [(''alpha'', 2), (''beta'', 1)]"
  by code_simp

theorem analytics_values_witness:
  "totalSearches (getSearchAnalytics history_state) = 3 \<and>
   averageResults (getSearchAnalytics history_state) = 2 \<and>
   length (topQueries (getSearchAnalytics history_state)) = 2 \<and>
   topQueries (getSearchAnalytics history_state) = [(''alpha'', 2), (''beta'', 1)] \<and>
   searchTypes (getSearchAnalytics history_state) =
     [(''semantic'', 0), (''keyword'', 0), (''hybrid'', 0), (''ai_enhanced'', 0)]"
proof -
  have h: "getSearchHistory history_state =
        [\<lparr>h_query = ''alpha'', h_timestamp = 30, h_resultCount = 1\<rparr>,
         \<lparr>h_query = ''beta'', h_timestamp = 20, h_resultCount = 3\<rparr>,
         \<lparr>h_query = ''alpha'', h_timestamp = 10, h_resultCount = 2\<rparr>]"
    by (simp add: getSearchHistory_def history_state_def)
  note t = analytics_values[of history_state, unfolded h]
  have "totalSearches (getSearchAnalytics history_state) = 3"
    using t[THEN conjunct1] by simp
  moreover have "averageResults (getSearchAnalytics history_state) = 2"
    using t[THEN conjunct2, THEN conjunct1] by simp
  moreover have "searchTypes (getSearchAnalytics history_state) =
     [(''semantic'', 0), (''keyword'', 0), (''hybrid'', 0), (''ai_enhanced'', 0)]"
    using t by blast
  ultimately show ?thesis using history_state_top by simp
qed

end
